theory Spec2Isabelle
  imports Main "HOL-Library.Word"
begin

section \<open>The TLB flush stress test (tlb\_flush\_stress.c)\<close>

subsection \<open>Data\<close>

text \<open>
  A region pointer is either the sentinel \<open>MAP_FAILED\<close> or the address of a mapping.
  Every successful \<open>mmap\<close> call creates a new mapping; the model names it by the number
  of the call that created it, so two mappings never share a name, also when the kernel
  hands out the same address again.
\<close>

datatype ptr = MAP_FAILED | Addr nat

text \<open>
  The table \<open>memory_regions\<close> comes from \<open>malloc\<close>, which does not initialise it.
  A slot is \<open>Junk\<close> until the worker stores a pointer in it; what a read of such a slot
  yields is up to the environment (\<open>junk\<close> below).
\<close>

datatype slot = Junk | Val ptr

datatype phase = MapPhase | AccessPhase | ReleasePhase | CleanupLoop

datatype message = AllocFailed | MmapFailed nat | MunmapFailed nat

text \<open>What a worker does that can be seen from outside, in the order it does it.\<close>

datatype event =
    FlagRead bool
  | TimeRead int
  | Iter phase nat
  | MmapCall nat ptr
  | PageRead nat nat "8 word"
  | PageWrite nat nat "8 word"
  | MunmapCall phase nat nat bool
  | UninitRead phase nat
  | Usleep nat
  | Merge int
  | Stderr message

text \<open>
  \<open>struct thread_data\<close>. \<open>main\<close> only passes page and iteration counts that it has
  checked to be positive (or the positive defaults), so they are naturals here; the
  duration is compared with a difference of \<open>time_t\<close> values and stays an integer.
  The field \<open>thread_tlb_flushes\<close>, the only one the worker writes, is kept in the
  worker's state.
\<close>

record thread_data =
  thread_id :: nat
  pages_per_thread :: nat
  duration_seconds :: int
  iterations_per_cycle :: nat

text \<open>
  The state a worker acts on: its table, its counter, the first byte of every page of
  every region (all the program ever touches), the set of mappings that exist, the
  wall clock in microseconds, the numbers of calls made so far (they index the
  environment's answers) and the events so far.
\<close>

record wstate =
  memory_regions :: "slot list"
  thread_tlb_flushes :: int
  mem :: "nat \<Rightarrow> nat \<Rightarrow> 8 word"
  mapped :: "nat set"
  flag_reads :: nat
  mmap_calls :: nat
  munmap_calls :: nat
  time_calls :: nat
  now :: nat
  trace :: "event list"

text \<open>
  The environment of one worker. \<open>keep_running\<close> starts as 1 and the program only ever
  stores 0 in it (the signal handler and \<open>main\<close>), so what a worker sees of it is the
  number of its reads that still return 1: \<open>stop = Some m\<close> when the reads from the
  \<open>m\<close>-th on return 0, \<open>None\<close> when the flag is never cleared. \<open>lag k\<close> is the time in
  microseconds that passes before the \<open>k\<close>-th call of \<open>time\<close>, beyond the sleeps; the
  clock never goes back. \<open>junk i\<close> is what slot \<open>i\<close> of the fresh table happens to hold.
\<close>

record env =
  malloc_ok :: bool
  junk :: "nat \<Rightarrow> ptr"
  stop :: "nat option"
  mmap_ok :: "nat \<Rightarrow> bool"
  munmap_ok :: "nat \<Rightarrow> bool"
  lag :: "nat \<Rightarrow> nat"

subsection \<open>System calls and the flag\<close>

definition emit :: "event \<Rightarrow> wstate \<Rightarrow> wstate" where
  "emit ev s = s\<lparr>trace := trace s @ [ev]\<rparr>"

definition stopped :: "env \<Rightarrow> wstate \<Rightarrow> bool" where
  "stopped e s = (case stop e of None \<Rightarrow> False | Some m \<Rightarrow> m \<le> flag_reads s)"

definition keep_running :: "env \<Rightarrow> wstate \<Rightarrow> bool \<times> wstate" where
  "keep_running e s =
     (\<not> stopped e s, emit (FlagRead (\<not> stopped e s)) (s\<lparr>flag_reads := Suc (flag_reads s)\<rparr>))"

text \<open>
  The clock. \<open>time(NULL)\<close> returns the wall clock in whole seconds; \<open>lag\<close> says how far the
  clock has moved on since the last call or sleep. \<open>usleep(us)\<close> suspends the thread for at
  least \<open>us\<close> microseconds; what it takes longer is part of the next \<open>lag\<close>.
\<close>

definition time_call :: "env \<Rightarrow> wstate \<Rightarrow> int \<times> wstate" where
  "time_call e s =
     (int ((now s + lag e (time_calls s)) div 1000000),
      emit (TimeRead (int ((now s + lag e (time_calls s)) div 1000000)))
        (s\<lparr>now := now s + lag e (time_calls s), time_calls := Suc (time_calls s)\<rparr>))"

definition usleep :: "nat \<Rightarrow> wstate \<Rightarrow> wstate" where
  "usleep us s = emit (Usleep us) (s\<lparr>now := now s + us\<rparr>)"

text \<open>\<open>mmap\<close> of a private anonymous region: zero-filled on success.\<close>

definition mmap :: "env \<Rightarrow> wstate \<Rightarrow> ptr \<times> wstate" where
  "mmap e s =
     (if mmap_ok e (mmap_calls s)
      then (Addr (mmap_calls s),
            s\<lparr>mmap_calls := Suc (mmap_calls s),
              mapped := insert (mmap_calls s) (mapped s),
              mem := (mem s)(mmap_calls s := (\<lambda>_. 0))\<rparr>)
      else (MAP_FAILED, s\<lparr>mmap_calls := Suc (mmap_calls s)\<rparr>))"

definition munmap :: "env \<Rightarrow> nat \<Rightarrow> wstate \<Rightarrow> bool \<times> wstate" where
  "munmap e r s =
     (if munmap_ok e (munmap_calls s)
      then (True, s\<lparr>munmap_calls := Suc (munmap_calls s), mapped := mapped s - {r}\<rparr>)
      else (False, s\<lparr>munmap_calls := Suc (munmap_calls s)\<rparr>))"

text \<open>Reading a slot of the table; a read of a slot never written is recorded.\<close>

definition read_slot :: "env \<Rightarrow> phase \<Rightarrow> nat \<Rightarrow> wstate \<Rightarrow> ptr \<times> wstate" where
  "read_slot e ph i s =
     (case memory_regions s ! i of
        Val p \<Rightarrow> (p, s)
      | Junk \<Rightarrow> (junk e i, emit (UninitRead ph i) s))"

subsection \<open>The worker\<close>

text \<open>\<open>for (i = 0; i < n && keep_running; i++) body\<close>: the flag is read only when \<open>i < n\<close>.\<close>

function for_running :: "env \<Rightarrow> nat \<Rightarrow> (nat \<Rightarrow> wstate \<Rightarrow> wstate) \<Rightarrow> nat \<Rightarrow> wstate \<Rightarrow> wstate" where
  "for_running e n body i s =
     (if i < n then
        (case keep_running e s of
           (b, s1) \<Rightarrow> if b then for_running e n body (Suc i) (body i s1) else s1)
      else s)"
  by pat_completeness auto
termination
  by (relation "measure (\<lambda>(e, n, body, i, s). n - i)") auto

text \<open>The touch loop: \<open>*page = (char)(i + j)\<close> for every page \<open>j\<close> of the region.\<close>

function touch_pages :: "nat \<Rightarrow> nat \<Rightarrow> nat \<Rightarrow> nat \<Rightarrow> wstate \<Rightarrow> wstate" where
  "touch_pages pages r i j s =
     (if j < pages
      then touch_pages pages r i (Suc j) (s\<lparr>mem := (mem s)(r := (mem s r)(j := of_nat (i + j)))\<rparr>)
      else s)"
  by pat_completeness auto
termination
  by (relation "measure (\<lambda>(pages, r, i, j, s). pages - j)") auto

definition map_iter :: "env \<Rightarrow> thread_data \<Rightarrow> nat \<Rightarrow> wstate \<Rightarrow> wstate" where
  "map_iter e d i s =
     (case mmap e (emit (Iter MapPhase i) s) of
        (p, s1) \<Rightarrow>
          (case p of
             MAP_FAILED \<Rightarrow>
               emit (Stderr (MmapFailed i))
                 (emit (MmapCall i p) (s1\<lparr>memory_regions := (memory_regions s1)[i := Val p]\<rparr>))
           | Addr r \<Rightarrow>
               touch_pages (pages_per_thread d) r i 0
                 (emit (MmapCall i p) (s1\<lparr>memory_regions := (memory_regions s1)[i := Val p]\<rparr>))))"

text \<open>One pass of the inner access loop: read the byte, write it back plus one.\<close>

definition access_page :: "nat \<Rightarrow> nat \<Rightarrow> nat \<Rightarrow> nat \<Rightarrow> wstate \<Rightarrow> wstate" where
  "access_page pages r i j s =
     emit (PageWrite r ((j * 17 + i * 13) mod pages) (mem s r ((j * 17 + i * 13) mod pages) + 1))
       (emit (PageRead r ((j * 17 + i * 13) mod pages) (mem s r ((j * 17 + i * 13) mod pages)))
          (s\<lparr>mem := (mem s)(r := (mem s r)((j * 17 + i * 13) mod pages :=
                  mem s r ((j * 17 + i * 13) mod pages) + 1))\<rparr>))"

function access_pages :: "nat \<Rightarrow> nat \<Rightarrow> nat \<Rightarrow> nat \<Rightarrow> wstate \<Rightarrow> wstate" where
  "access_pages pages r i j s =
     (if j < pages then access_pages pages r i (j + 4) (access_page pages r i j s) else s)"
  by pat_completeness auto
termination
  by (relation "measure (\<lambda>(pages, r, i, j, s). pages - j)") auto

definition access_iter :: "env \<Rightarrow> thread_data \<Rightarrow> nat \<Rightarrow> wstate \<Rightarrow> wstate" where
  "access_iter e d i s =
     (case read_slot e AccessPhase i (emit (Iter AccessPhase i) s) of
        (p, s1) \<Rightarrow>
          (case p of
             MAP_FAILED \<Rightarrow> s1
           | Addr r \<Rightarrow> access_pages (pages_per_thread d) r i 0 s1))"

definition release_iter :: "env \<Rightarrow> nat \<Rightarrow> wstate \<Rightarrow> wstate" where
  "release_iter e i s =
     (case read_slot e ReleasePhase i (emit (Iter ReleasePhase i) s) of
        (p, s1) \<Rightarrow>
          (case p of
             MAP_FAILED \<Rightarrow> s1
           | Addr r \<Rightarrow>
               (case munmap e r s1 of
                  (ok, s2) \<Rightarrow>
                    (if ok
                     then (emit (MunmapCall ReleasePhase i r ok) s2)
                            \<lparr>thread_tlb_flushes := thread_tlb_flushes s2 + 1\<rparr>
                     else emit (Stderr (MunmapFailed i)) (emit (MunmapCall ReleasePhase i r ok) s2))
                    \<lparr>memory_regions := (memory_regions s2)[i := Val MAP_FAILED]\<rparr>)))"

definition cleanup_iter :: "env \<Rightarrow> nat \<Rightarrow> wstate \<Rightarrow> wstate" where
  "cleanup_iter e i s =
     (case read_slot e CleanupLoop i (emit (Iter CleanupLoop i) s) of
        (p, s1) \<Rightarrow>
          (case p of
             MAP_FAILED \<Rightarrow> s1
           | Addr r \<Rightarrow>
               (case munmap e r s1 of
                  (ok, s2) \<Rightarrow> emit (MunmapCall CleanupLoop i r ok) s2)))"

definition map_phase :: "env \<Rightarrow> thread_data \<Rightarrow> wstate \<Rightarrow> wstate" where
  "map_phase e d s = for_running e (iterations_per_cycle d) (map_iter e d) 0 s"

definition access_phase :: "env \<Rightarrow> thread_data \<Rightarrow> wstate \<Rightarrow> wstate" where
  "access_phase e d s = for_running e (iterations_per_cycle d) (access_iter e d) 0 s"

definition release_phase :: "env \<Rightarrow> thread_data \<Rightarrow> wstate \<Rightarrow> wstate" where
  "release_phase e d s = for_running e (iterations_per_cycle d) (release_iter e) 0 s"

definition cycle :: "env \<Rightarrow> thread_data \<Rightarrow> wstate \<Rightarrow> wstate" where
  "cycle e d s = usleep 1000 (release_phase e d (access_phase e d (map_phase e d s)))"

subsection \<open>What the loops leave alone\<close>

declare for_running.simps [simp del] touch_pages.simps [simp del] access_pages.simps [simp del]

lemma for_running_keeps:
  assumes "\<And>i s. f (body i s) = f s" and "\<And>s. f (snd (keep_running e s)) = f s"
  shows "f (for_running e n body i s) = f s"
proof (induction "n - i" arbitrary: i s)
  case 0
  then show ?case by (simp add: for_running.simps [of e n body i s])
next
  case (Suc k)
  obtain b s1 where k: "keep_running e s = (b, s1)" by (cases "keep_running e s")
  have s1: "f s1 = f s" using k assms(2) [of s] by simp
  have "f (for_running e n body (Suc i) (body i s1)) = f (body i s1)"
    using Suc(1) [of "Suc i" "body i s1"] Suc(2) by simp
  with Suc(2) k s1 assms(1) show ?case
    by (simp add: for_running.simps [of e n body i s])
qed

lemma touch_pages_only_mem: "\<exists>m. touch_pages pages r i j s = s\<lparr>mem := m\<rparr>"
proof (induction pages r i j s rule: touch_pages.induct)
  case (1 pages r i j s)
  show ?case
  proof (cases "j < pages")
    case False
    have "s = s\<lparr>mem := mem s\<rparr>" by simp
    moreover have "touch_pages pages r i j s = s" using False by (simp add: touch_pages.simps [of pages r i j s])
    ultimately have "touch_pages pages r i j s = s\<lparr>mem := mem s\<rparr>" by simp
    then show ?thesis by blast
  next
    case True
    from "1.IH" [OF True] obtain m where
      "touch_pages pages r i (Suc j) (s\<lparr>mem := (mem s)(r := (mem s r)(j := of_nat (i + j)))\<rparr>)
         = s\<lparr>mem := (mem s)(r := (mem s r)(j := of_nat (i + j)))\<rparr>\<lparr>mem := m\<rparr>"
      by blast
    with True have "touch_pages pages r i j s = s\<lparr>mem := m\<rparr>" by (simp add: touch_pages.simps [of pages r i j s])
    then show ?thesis by blast
  qed
qed

fun is_page_event :: "event \<Rightarrow> bool" where
  "is_page_event (PageRead r k v) = True"
| "is_page_event (PageWrite r k v) = True"
| "is_page_event _ = False"

lemma access_pages_only_mem:
  "\<exists>m t. access_pages pages r i j s = s\<lparr>mem := m, trace := trace s @ t\<rparr> \<and> list_all is_page_event t"
proof (induction pages r i j s rule: access_pages.induct)
  case (1 pages r i j s)
  show ?case
  proof (cases "j < pages")
    case False
    have "s = s\<lparr>mem := mem s, trace := trace s @ []\<rparr>" by simp
    moreover have "access_pages pages r i j s = s" using False by (simp add: access_pages.simps [of pages r i j s])
    ultimately have "access_pages pages r i j s = s\<lparr>mem := mem s, trace := trace s @ []\<rparr> \<and> list_all is_page_event []"
      by simp
    then show ?thesis by blast
  next
    case True
    from "1.IH" [OF True] obtain m t where
      m: "access_pages pages r i (j + 4) (access_page pages r i j s)
            = (access_page pages r i j s)\<lparr>mem := m, trace := trace (access_page pages r i j s) @ t\<rparr>"
      and t: "list_all is_page_event t"
      by blast
    let ?k = "(j * 17 + i * 13) mod pages"
    have "access_pages pages r i j s
            = s\<lparr>mem := m, trace := trace s @ ([PageRead r ?k (mem s r ?k), PageWrite r ?k (mem s r ?k + 1)] @ t)\<rparr>"
      using True m by (simp add: access_pages.simps [of pages r i j s] access_page_def emit_def)
    moreover have "list_all is_page_event ([PageRead r ?k (mem s r ?k), PageWrite r ?k (mem s r ?k + 1)] @ t)"
      using t by simp
    ultimately show ?thesis by blast
  qed
qed

lemma now_keep_running [simp]: "now (snd (keep_running e s)) = now s"
  by (simp add: keep_running_def emit_def)

lemma now_map_iter [simp]: "now (map_iter e d i s) = now s"
proof -
  obtain p s1 where m: "mmap e (emit (Iter MapPhase i) s) = (p, s1)"
    by (cases "mmap e (emit (Iter MapPhase i) s)")
  then have s1: "now s1 = now s"
    by (auto simp: mmap_def emit_def split: if_splits)
  show ?thesis
  proof (cases p)
    case MAP_FAILED
    with m s1 show ?thesis by (simp add: map_iter_def emit_def)
  next
    case (Addr r)
    obtain mm where "touch_pages (pages_per_thread d) r i 0
        (emit (MmapCall i p) (s1\<lparr>memory_regions := (memory_regions s1)[i := Val p]\<rparr>))
      = (emit (MmapCall i p) (s1\<lparr>memory_regions := (memory_regions s1)[i := Val p]\<rparr>))\<lparr>mem := mm\<rparr>"
      using touch_pages_only_mem by blast
    with Addr m s1 show ?thesis by (simp add: map_iter_def emit_def)
  qed
qed

lemma now_access_iter [simp]: "now (access_iter e d i s) = now s"
proof -
  obtain p s1 where m: "read_slot e AccessPhase i (emit (Iter AccessPhase i) s) = (p, s1)"
    by (cases "read_slot e AccessPhase i (emit (Iter AccessPhase i) s)")
  then have s1: "now s1 = now s"
    by (auto simp: read_slot_def emit_def split: slot.splits)
  show ?thesis
  proof (cases p)
    case MAP_FAILED
    with m s1 show ?thesis by (simp add: access_iter_def)
  next
    case (Addr r)
    obtain mm t where "access_pages (pages_per_thread d) r i 0 s1 = s1\<lparr>mem := mm, trace := trace s1 @ t\<rparr>"
      using access_pages_only_mem by blast
    with Addr m s1 show ?thesis by (simp add: access_iter_def)
  qed
qed

lemma now_release_iter [simp]: "now (release_iter e i s) = now s"
  by (auto simp: release_iter_def read_slot_def munmap_def emit_def split: slot.splits ptr.splits)

lemma now_cycle: "now (cycle e d s) = now s + 1000"
  by (simp add: cycle_def usleep_def emit_def map_phase_def access_phase_def release_phase_def
      for_running_keeps [where f = now])

subsection \<open>The cycle loop and the worker\<close>

text \<open>
  \<open>while (keep_running) { current_time = time(NULL); if (current_time - start_time >=
  duration_seconds) break; ... usleep(1000); }\<close>. Every pass sleeps for 1000 microseconds,
  so the clock reaches the end of the run after finitely many passes.
\<close>

function cycles :: "env \<Rightarrow> thread_data \<Rightarrow> int \<Rightarrow> wstate \<Rightarrow> wstate" where
  "cycles e d start_time s =
     (case keep_running e s of
        (b, s1) \<Rightarrow>
          if \<not> b then s1
          else
            (case time_call e s1 of
               (current_time, s2) \<Rightarrow>
                 if current_time - start_time \<ge> duration_seconds d then s2
                 else cycles e d start_time (cycle e d s2)))"
  by pat_completeness auto
termination
proof (relation "measure (\<lambda>(e, d, start_time, s). nat ((start_time + duration_seconds d) * 1000000 - int (now s)))",
    goal_cases)
  case 1
  show ?case by simp
next
  case (2 e d start_time s b s1 current_time s2)
  from 2(1) have s1: "now s1 = now s"
    by (auto simp: keep_running_def emit_def)
  from 2(3) have s2: "now s2 = now s1 + lag e (time_calls s1)"
    and ct: "current_time = int (now s2 div 1000000)"
    by (auto simp: time_call_def emit_def)
  from 2(4) ct have "int (now s2 div 1000000) < start_time + duration_seconds d" by simp
  then have "int (now s2) < (start_time + duration_seconds d) * 1000000"
    by (simp add: zdiv_int [symmetric] div_less_iff_less_mult)
  with s1 s2 show ?case by (simp add: now_cycle)
qed

declare cycles.simps [simp del]

definition init_wstate :: wstate where
  "init_wstate =
     \<lparr>memory_regions = [], thread_tlb_flushes = 0, mem = (\<lambda>_ _. 0), mapped = {},
      flag_reads = 0, mmap_calls = 0, munmap_calls = 0, time_calls = 0, now = 0, trace = []\<rparr>"

definition cleanup :: "env \<Rightarrow> thread_data \<Rightarrow> wstate \<Rightarrow> wstate" where
  "cleanup e d s = fold (cleanup_iter e) [0..<iterations_per_cycle d] s"

text \<open>
  \<open>tlb_flush_worker\<close>. \<open>main\<close> has set \<open>thread_tlb_flushes\<close> to 0 before the thread
  starts (\<open>init_wstate\<close>). When \<open>malloc\<close> fails the worker logs and returns at once.
  Otherwise it reads the start time, runs the cycles, unmaps what the table still holds,
  and adds its counter to \<open>total_tlb_flushes\<close> under the mutex (the event \<open>Merge\<close>).
\<close>

definition run_cycles :: "env \<Rightarrow> thread_data \<Rightarrow> wstate" where
  "run_cycles e d =
     (case time_call e (init_wstate\<lparr>memory_regions := replicate (iterations_per_cycle d) Junk\<rparr>) of
        (start_time, s1) \<Rightarrow> cycles e d start_time (s1\<lparr>thread_tlb_flushes := 0\<rparr>))"

definition merge_counter :: "wstate \<Rightarrow> wstate" where
  "merge_counter s = emit (Merge (thread_tlb_flushes s)) s"

definition tlb_flush_worker :: "env \<Rightarrow> thread_data \<Rightarrow> wstate" where
  "tlb_flush_worker e d =
     (if \<not> malloc_ok e then emit (Stderr AllocFailed) init_wstate
      else merge_counter (cleanup e d (run_cycles e d)))"

subsection \<open>What a run did: counts over the events\<close>

fun is_map_ok :: "event \<Rightarrow> bool" where
  "is_map_ok (MmapCall i (Addr r)) = True"
| "is_map_ok _ = False"

fun is_release_ok :: "event \<Rightarrow> bool" where
  "is_release_ok (MunmapCall ReleasePhase i r True) = True"
| "is_release_ok _ = False"

fun is_release_failed :: "event \<Rightarrow> bool" where
  "is_release_failed (MunmapCall ReleasePhase i r False) = True"
| "is_release_failed _ = False"

fun is_munmap_ok :: "event \<Rightarrow> bool" where
  "is_munmap_ok (MunmapCall ph i r True) = True"
| "is_munmap_ok _ = False"

fun is_munmap_log :: "event \<Rightarrow> bool" where
  "is_munmap_log (Stderr (MunmapFailed i)) = True"
| "is_munmap_log _ = False"

fun is_uninit_read :: "event \<Rightarrow> bool" where
  "is_uninit_read (UninitRead ph i) = True"
| "is_uninit_read _ = False"

fun released_of :: "event \<Rightarrow> nat list" where
  "released_of (MunmapCall ReleasePhase i r ok) = [r]"
| "released_of _ = []"

fun cleaned_of :: "event \<Rightarrow> nat list" where
  "cleaned_of (MunmapCall CleanupLoop i r ok) = [r]"
| "cleaned_of _ = []"

fun merged_of :: "event \<Rightarrow> int list" where
  "merged_of (Merge k) = [k]"
| "merged_of _ = []"

definition maps_ok :: "event list \<Rightarrow> nat" where
  "maps_ok tr = length (filter is_map_ok tr)"

definition releases_ok :: "event list \<Rightarrow> nat" where
  "releases_ok tr = length (filter is_release_ok tr)"

definition munmaps_ok :: "event list \<Rightarrow> nat" where
  "munmaps_ok tr = length (filter is_munmap_ok tr)"

text \<open>The regions passed to \<open>munmap\<close> by the release phase and by the final loop.\<close>

definition released :: "event list \<Rightarrow> nat list" where
  "released tr = concat (map released_of tr)"

definition cleaned :: "event list \<Rightarrow> nat list" where
  "cleaned tr = concat (map cleaned_of tr)"

definition merges :: "event list \<Rightarrow> int list" where
  "merges tr = concat (map merged_of tr)"

section \<open>\<open>main\<close>\<close>

subsection \<open>Options\<close>

text \<open>
  \<open>atoi\<close> of the GNU C library, which the program is linked against, is
  \<open>(int) strtol(nptr, NULL, 10)\<close>. \<open>strtol\<close> skips white space, reads an optional sign
  and then the longest run of decimal digits; its value is 0 when there is no digit, and
  \<open>LONG_MAX\<close> or \<open>LONG_MIN\<close> when the number does not fit a \<open>long\<close>, which has 64 bits
  where the program runs. The conversion to \<open>int\<close> keeps the low 32 bits.
\<close>

definition isspace :: "char \<Rightarrow> bool" where
  "isspace c = (c = CHR '' '' \<or> c = CHR 0x09 \<or> c = CHR 0x0A \<or> c = CHR 0x0B \<or> c = CHR 0x0C \<or> c = CHR 0x0D)"

text \<open>The decimal digits are the characters with codes 48 to 57.\<close>

definition digit_of :: "char \<Rightarrow> nat option" where
  "digit_of c = (if 48 \<le> (of_char c :: nat) \<and> (of_char c :: nat) \<le> 57 then Some (of_char c - 48) else None)"

fun digits_value :: "nat \<Rightarrow> string \<Rightarrow> nat" where
  "digits_value acc [] = acc"
| "digits_value acc (c # cs) =
     (case digit_of c of None \<Rightarrow> acc | Some v \<Rightarrow> digits_value (acc * 10 + v) cs)"

fun signed_value :: "string \<Rightarrow> int" where
  "signed_value [] = 0"
| "signed_value (c # cs) =
     (if c = CHR ''-'' then - int (digits_value 0 cs)
      else if c = CHR ''+'' then int (digits_value 0 cs)
      else int (digits_value 0 (c # cs)))"

definition strtol :: "string \<Rightarrow> int" where
  "strtol str =
     max (- 9223372036854775808) (min 9223372036854775807 (signed_value (dropWhile isspace str)))"

definition atoi :: "string \<Rightarrow> int" where
  "atoi str = sint (word_of_int (strtol str) :: 32 word)"

text \<open>
  What \<open>getopt(argc, argv, "t:p:d:i:h")\<close> returns, call after call: an option with its
  argument, \<open>-h\<close>, or \<open>'?'\<close> for anything else.
\<close>

datatype option_arg = Opt_t string | Opt_p string | Opt_d string | Opt_i string | Opt_h | Opt_unknown

text \<open>
  The four locals of \<open>main\<close> that the options set: \<open>num_threads\<close>, and
  \<open>pages_per_thread\<close>, \<open>duration_seconds\<close> and \<open>iterations_per_cycle\<close>, which are
  written with the suffix \<open>_arg\<close> here to tell them from the fields of \<open>struct thread_data\<close>.
\<close>

record settings =
  num_threads :: int
  pages_arg :: int
  duration_arg :: int
  iterations_arg :: int

definition defaults :: settings where
  "defaults = \<lparr>num_threads = 4, pages_arg = 1024, duration_arg = 60, iterations_arg = 100\<rparr>"

datatype main_message =
    InvalidThreads int
  | InvalidPages int
  | InvalidDuration int
  | InvalidIterations int
  | AllocStructuresFailed
  | CreateFailed nat

text \<open>How the option loop ends: a \<open>return\<close> out of \<open>main\<close>, or the settings to run with.\<close>

datatype parsed = Return int "main_message list" bool | Run settings

fun parse_args :: "option_arg list \<Rightarrow> settings \<Rightarrow> parsed" where
  "parse_args [] c = Run c"
| "parse_args (Opt_t v # rest) c =
     (if atoi v \<le> 0 \<or> atoi v > 64 then Return 1 [InvalidThreads (atoi v)] False
      else parse_args rest (c\<lparr>num_threads := atoi v\<rparr>))"
| "parse_args (Opt_p v # rest) c =
     (if atoi v \<le> 0 \<or> atoi v > 100000 then Return 1 [InvalidPages (atoi v)] False
      else parse_args rest (c\<lparr>pages_arg := atoi v\<rparr>))"
| "parse_args (Opt_d v # rest) c =
     (if atoi v \<le> 0 then Return 1 [InvalidDuration (atoi v)] False
      else parse_args rest (c\<lparr>duration_arg := atoi v\<rparr>))"
| "parse_args (Opt_i v # rest) c =
     (if atoi v \<le> 0 \<or> atoi v > 10000 then Return 1 [InvalidIterations (atoi v)] False
      else parse_args rest (c\<lparr>iterations_arg := atoi v\<rparr>))"
| "parse_args (Opt_h # rest) c = Return 0 [] True"
| "parse_args (Opt_unknown # rest) c = Return 1 [] True"

subsection \<open>Launching and joining\<close>

text \<open>
  The environment of \<open>main\<close>: whether its two \<open>malloc\<close> calls succeed, whether the
  \<open>i\<close>-th \<open>pthread_create\<close> succeeds, and the environment of each worker.
\<close>

record menv =
  threads_alloc_ok :: bool
  data_alloc_ok :: bool
  create_ok :: "nat \<Rightarrow> bool"
  worker_env :: "nat \<Rightarrow> env"

text \<open>
  A slot of the table \<open>threads\<close>. The table comes from \<open>malloc\<close>, so a slot holds
  nothing that the program put there until \<open>pthread_create\<close> has stored in it the handle
  of the thread it created. (When \<open>pthread_create\<close> fails, what it leaves in the slot is
  not defined.) Worker \<open>i\<close> is the thread created for index \<open>i\<close>.
\<close>

datatype handle = Unwritten | Thread nat

text \<open>
  What a run of \<open>main\<close> did: its exit status, the messages on the error stream, whether
  the usage text was printed, the workers that were created with what each of them did,
  whether \<open>main\<close> stored 0 in \<open>keep_running\<close>, what the join loop passed to
  \<open>pthread_join\<close>, call after call, and \<open>total_tlb_flushes\<close> as \<open>main\<close> reads it after
  the joins. \<open>pthread_join\<close> on a slot that was never written has no defined behaviour;
  the outcome records the call, and its exit status is what \<open>main\<close> returns when every
  call of \<open>pthread_join\<close> comes back.
\<close>

record outcome =
  exit_status :: int
  stderr :: "main_message list"
  usage_shown :: bool
  workers :: "wstate list"
  shutdown_raised :: bool
  joined :: "handle list"
  total_tlb_flushes :: int

text \<open>
  The launch loop: \<open>for (i = 0; i < num_threads; i++) { ...; if (pthread_create(&threads[i],
  ...) != 0) { ...; keep_running = 0; break; } }\<close>. It returns the number of threads
  created, whether a creation failed, and the table \<open>threads\<close> as the loop leaves it.
\<close>

function launch :: "menv \<Rightarrow> nat \<Rightarrow> nat \<Rightarrow> handle list \<Rightarrow> nat \<times> bool \<times> handle list" where
  "launch m n i threads =
     (if i < n
      then (if create_ok m i then launch m n (Suc i) (threads[i := Thread i]) else (i, True, threads))
      else (i, False, threads))"
  by pat_completeness auto
termination
  by (relation "measure (\<lambda>(m, n, i, threads). n - i)") auto

declare launch.simps [simp del]

text \<open>
  The join loop: \<open>for (i = 0; i < num_threads; i++) pthread_join(threads[i], NULL)\<close>. It
  runs over the whole table, whatever the launch loop did.
\<close>

definition join_all :: "nat \<Rightarrow> handle list \<Rightarrow> handle list" where
  "join_all n threads = map (\<lambda>i. threads ! i) [0..<n]"

definition thread_data_of :: "settings \<Rightarrow> nat \<Rightarrow> thread_data" where
  "thread_data_of c i =
     \<lparr>thread_id = i, pages_per_thread = nat (pages_arg c), duration_seconds = duration_arg c,
      iterations_per_cycle = nat (iterations_arg c)\<rparr>"

text \<open>
  Every worker adds its counter to \<open>total_tlb_flushes\<close> with the mutex held, so the
  additions do not interleave and the total after the joins is the sum of what was added.
\<close>

definition run_threads :: "menv \<Rightarrow> settings \<Rightarrow> outcome" where
  "run_threads m c =
     (case launch m (nat (num_threads c)) 0 (replicate (nat (num_threads c)) Unwritten) of
        (created, failed, threads) \<Rightarrow>
          \<lparr>exit_status = 0,
           stderr = (if failed then [CreateFailed created] else []),
           usage_shown = False,
           workers = map (\<lambda>i. tlb_flush_worker (worker_env m i) (thread_data_of c i)) [0..<created],
           shutdown_raised = failed,
           joined = join_all (nat (num_threads c)) threads,
           total_tlb_flushes =
             sum_list (map (\<lambda>i. sum_list (merges (trace (tlb_flush_worker (worker_env m i) (thread_data_of c i)))))
               [0..<created])\<rparr>)"

definition main :: "option_arg list \<Rightarrow> menv \<Rightarrow> outcome" where
  "main args m =
     (case parse_args args defaults of
        Return status msgs usage \<Rightarrow>
          \<lparr>exit_status = status, stderr = msgs, usage_shown = usage, workers = [],
           shutdown_raised = False, joined = [], total_tlb_flushes = 0\<rparr>
      | Run c \<Rightarrow>
          if \<not> threads_alloc_ok m \<or> \<not> data_alloc_ok m
          then \<lparr>exit_status = 1, stderr = [AllocStructuresFailed], usage_shown = False, workers = [],
                shutdown_raised = False, joined = [], total_tlb_flushes = 0\<rparr>
          else run_threads m c)"

section \<open>Notions used in the statements and in the proofs\<close>

subsection \<open>Options that pass the checks and options that do not\<close>

text \<open>
  An option passes when the value \<open>atoi\<close> reads is within the bounds \<open>main\<close> checks (for
  the duration: positive, and an \<open>int\<close>). It is out of bounds when that value is an \<open>int\<close>
  outside them. \<open>complaint\<close> is the message \<open>main\<close> prints for it, and \<open>stored\<close> the
  assignment \<open>main\<close> makes when it passes.
\<close>

fun accepted :: "option_arg \<Rightarrow> bool" where
  "accepted (Opt_t v) = (1 \<le> atoi v \<and> atoi v \<le> 64)"
| "accepted (Opt_p v) = (1 \<le> atoi v \<and> atoi v \<le> 100000)"
| "accepted (Opt_d v) = (1 \<le> atoi v \<and> atoi v \<le> 2147483647)"
| "accepted (Opt_i v) = (1 \<le> atoi v \<and> atoi v \<le> 10000)"
| "accepted Opt_h = False"
| "accepted Opt_unknown = False"

definition is_int :: "int \<Rightarrow> bool" where
  "is_int v = (- 2147483648 \<le> v \<and> v \<le> 2147483647)"

fun out_of_bounds :: "option_arg \<Rightarrow> bool" where
  "out_of_bounds (Opt_t v) = (is_int (atoi v) \<and> (atoi v < 1 \<or> 64 < atoi v))"
| "out_of_bounds (Opt_p v) = (is_int (atoi v) \<and> (atoi v < 1 \<or> 100000 < atoi v))"
| "out_of_bounds (Opt_d v) = (is_int (atoi v) \<and> atoi v < 1)"
| "out_of_bounds (Opt_i v) = (is_int (atoi v) \<and> (atoi v < 1 \<or> 10000 < atoi v))"
| "out_of_bounds Opt_h = False"
| "out_of_bounds Opt_unknown = False"

fun complaint :: "option_arg \<Rightarrow> main_message list" where
  "complaint (Opt_t v) = [InvalidThreads (atoi v)]"
| "complaint (Opt_p v) = [InvalidPages (atoi v)]"
| "complaint (Opt_d v) = [InvalidDuration (atoi v)]"
| "complaint (Opt_i v) = [InvalidIterations (atoi v)]"
| "complaint Opt_h = []"
| "complaint Opt_unknown = []"

fun stored :: "option_arg \<Rightarrow> settings \<Rightarrow> settings" where
  "stored (Opt_t v) c = c\<lparr>num_threads := atoi v\<rparr>"
| "stored (Opt_p v) c = c\<lparr>pages_arg := atoi v\<rparr>"
| "stored (Opt_d v) c = c\<lparr>duration_arg := atoi v\<rparr>"
| "stored (Opt_i v) c = c\<lparr>iterations_arg := atoi v\<rparr>"
| "stored Opt_h c = c"
| "stored Opt_unknown c = c"

definition returned :: "int \<Rightarrow> main_message list \<Rightarrow> bool \<Rightarrow> outcome" where
  "returned status msgs usage =
     \<lparr>exit_status = status, stderr = msgs, usage_shown = usage, workers = [],
      shutdown_raised = False, joined = [], total_tlb_flushes = 0\<rparr>"

subsection \<open>Bookkeeping of regions\<close>

text \<open>
  The regions the table holds, in the order of the slots; whether every slot of the
  table has been written.
\<close>

fun region_of :: "slot \<Rightarrow> nat list" where
  "region_of (Val (Addr r)) = [r]"
| "region_of _ = []"

definition live :: "wstate \<Rightarrow> nat list" where
  "live s = concat (map region_of (memory_regions s))"

definition filled :: "wstate \<Rightarrow> bool" where
  "filled s = (Junk \<notin> set (memory_regions s))"

text \<open>
  The invariant of the cycle loop, between any two passes of any of its loops. The
  counter is the number of successful releases; every failed release has its message;
  the regions released and the regions in the table are all different, were all mapped
  by this worker, and together are as many as the successful \<open>mmap\<close> calls; no slot has
  been read before it was written; the release phase has run only on a table that was
  written completely; and as long as every \<open>munmap\<close> succeeds, the table holds every
  region that is still mapped.
\<close>

definition accounted :: "env \<Rightarrow> nat \<Rightarrow> wstate \<Rightarrow> bool" where
  "accounted e n s \<longleftrightarrow>
     length (memory_regions s) = n
   \<and> thread_tlb_flushes s = int (releases_ok (trace s))
   \<and> length (filter is_release_failed (trace s)) = length (filter is_munmap_log (trace s))
   \<and> length (released (trace s)) + length (live s) = maps_ok (trace s)
   \<and> distinct (released (trace s) @ live s)
   \<and> (\<forall>r \<in> set (released (trace s) @ live s). r < mmap_calls s)
   \<and> filter is_uninit_read (trace s) = [] \<and> cleaned (trace s) = [] \<and> merges (trace s) = []
   \<and> (released (trace s) = [] \<or> filled s)
   \<and> ((\<forall>k. munmap_ok e k) \<longrightarrow>
        mapped s \<subseteq> set (live s) \<and> munmaps_ok (trace s) = length (released (trace s)))"

text \<open>
  The invariant of the final loop, before it looks at slot \<open>i\<close>, in terms of the state
  \<open>s0\<close> it started from.
\<close>

definition cleaning :: "env \<Rightarrow> wstate \<Rightarrow> nat \<Rightarrow> wstate \<Rightarrow> bool" where
  "cleaning e s0 i t \<longleftrightarrow>
     memory_regions t = memory_regions s0 \<and> thread_tlb_flushes t = thread_tlb_flushes s0
   \<and> (\<exists>tc. trace t = trace s0 @ tc
         \<and> maps_ok tc = 0 \<and> releases_ok tc = 0 \<and> released tc = [] \<and> merges tc = []
         \<and> filter is_release_failed tc = [] \<and> filter is_munmap_log tc = []
         \<and> (filled s0 \<longrightarrow> cleaned tc = concat (map region_of (take i (memory_regions s0)))
                          \<and> filter is_uninit_read tc = [])
         \<and> ((\<exists>k<i. memory_regions s0 ! k = Junk) \<longrightarrow> filter is_uninit_read tc \<noteq> [])
         \<and> ((\<forall>k. munmap_ok e k) \<longrightarrow> munmaps_ok tc = length (cleaned tc)))
   \<and> ((\<forall>k. munmap_ok e k) \<longrightarrow> mapped t \<subseteq> set (concat (map region_of (drop i (memory_regions s0)))))"

subsection \<open>The polling discipline\<close>

text \<open>
  Every pass of the cycle loop ends with one \<open>usleep\<close>, so the sleeps of a run count the
  passes.
\<close>

fun is_sleep :: "event \<Rightarrow> bool" where
  "is_sleep (Usleep us) = True"
| "is_sleep _ = False"

definition sleeps :: "event list \<Rightarrow> nat" where
  "sleeps tr = length (filter is_sleep tr)"

text \<open>
  A watcher reads the events of a run one by one and keeps: whether the event just
  before was a read of \<open>keep_running\<close> that returned 1; whether some read of it has
  returned 0; the first value read from the clock (\<open>start_time\<close>) and the latest one read
  after it (\<open>current_time\<close>). It marks the run as broken when a pass of the map, access
  or release loop begins that was not directly preceded by a read returning 1, or begins
  after a read has returned 0, or begins when the latest clock value is not less than
  the duration after the first; and when the clock is read again (in the cycle loop)
  without a read of \<open>keep_running\<close> returning 1 directly before it.
\<close>

record watch =
  polled :: bool
  cleared :: bool
  started :: "int option"
  latest :: "int option"
  broken :: bool

definition watch0 :: watch where
  "watch0 = \<lparr>polled = False, cleared = False, started = None, latest = None, broken = False\<rparr>"

definition in_time :: "int \<Rightarrow> watch \<Rightarrow> bool" where
  "in_time dur w =
     (case started w of
        None \<Rightarrow> False
      | Some t0 \<Rightarrow> (case latest w of None \<Rightarrow> False | Some t \<Rightarrow> t - t0 < dur))"

fun watch_step :: "int \<Rightarrow> watch \<Rightarrow> event \<Rightarrow> watch" where
  "watch_step dur w (FlagRead b) = w\<lparr>polled := b, cleared := cleared w \<or> \<not> b\<rparr>"
| "watch_step dur w (TimeRead t) =
     (case started w of
        None \<Rightarrow> w\<lparr>polled := False, started := Some t\<rparr>
      | Some t0 \<Rightarrow> w\<lparr>polled := False, latest := Some t, broken := broken w \<or> \<not> polled w\<rparr>)"
| "watch_step dur w (Iter ph i) =
     (if ph = CleanupLoop then w\<lparr>polled := False\<rparr>
      else w\<lparr>polled := False, broken := broken w \<or> \<not> polled w \<or> cleared w \<or> \<not> in_time dur w\<rparr>)"
| "watch_step dur w (MmapCall i p) = w\<lparr>polled := False\<rparr>"
| "watch_step dur w (PageRead r k v) = w\<lparr>polled := False\<rparr>"
| "watch_step dur w (PageWrite r k v) = w\<lparr>polled := False\<rparr>"
| "watch_step dur w (MunmapCall ph i r ok) = w\<lparr>polled := False\<rparr>"
| "watch_step dur w (UninitRead ph i) = w\<lparr>polled := False\<rparr>"
| "watch_step dur w (Usleep us) = w\<lparr>polled := False\<rparr>"
| "watch_step dur w (Merge k) = w\<lparr>polled := False\<rparr>"
| "watch_step dur w (Stderr msg) = w\<lparr>polled := False\<rparr>"

definition watching :: "int \<Rightarrow> event list \<Rightarrow> watch" where
  "watching dur tr = foldl (watch_step dur) watch0 tr"

definition obeys :: "int \<Rightarrow> event list \<Rightarrow> bool" where
  "obeys dur tr = (\<not> broken (watching dur tr))"

text \<open>The clock values read in a run, in order.\<close>

fun time_of :: "event \<Rightarrow> int list" where
  "time_of (TimeRead t) = [t]"
| "time_of _ = []"

definition times :: "event list \<Rightarrow> int list" where
  "times tr = concat (map time_of tr)"

text \<open>The events that neither poll, nor read the clock, nor sleep, nor begin a pass of a phase.\<close>

fun is_plain :: "event \<Rightarrow> bool" where
  "is_plain (FlagRead b) = False"
| "is_plain (TimeRead t) = False"
| "is_plain (Iter ph i) = (ph = CleanupLoop)"
| "is_plain (Usleep us) = False"
| "is_plain _ = True"

text \<open>What holds of the watcher between two passes of any loop of a cycle.\<close>

definition watched :: "env \<Rightarrow> int \<Rightarrow> int \<Rightarrow> wstate \<Rightarrow> bool" where
  "watched e dur st t \<longleftrightarrow>
     \<not> broken (watching dur (trace t))
   \<and> (cleared (watching dur (trace t)) \<longrightarrow> stopped e t)
   \<and> started (watching dur (trace t)) = Some st"

subsection \<open>The access pattern\<close>

text \<open>
  The page indices \<open>j = 0, 4, 8, ...\<close> below \<open>pagesPerThread\<close>, and the page that
  index \<open>j\<close> leads to in the pass for slot \<open>i\<close>: \<open>(j * 17 + i * 13) mod pagesPerThread\<close>.
\<close>

definition visited :: "nat \<Rightarrow> nat list" where
  "visited pages = filter (\<lambda>j. j mod 4 = 0) [0..<pages]"

definition page_offset :: "nat \<Rightarrow> nat \<Rightarrow> nat \<Rightarrow> nat" where
  "page_offset pages i j = (j * 17 + i * 13) mod pages"

text \<open>
  The events of a pass over region \<open>r\<close> for slot \<open>i\<close>: for each of these indices in
  turn, a read of the page it leads to, followed by a write to that page of the value
  read plus one. \<open>vs\<close> are the values read.
\<close>

definition touches :: "nat \<Rightarrow> nat \<Rightarrow> nat \<Rightarrow> 8 word list \<Rightarrow> event list" where
  "touches pages r i vs =
     concat (map2 (\<lambda>j v. [PageRead r (page_offset pages i j) v, PageWrite r (page_offset pages i j) (v + 1)])
       (visited pages) vs)"

text \<open>Whether the next event is a read or a write of a page.\<close>

fun page_next :: "event list \<Rightarrow> bool" where
  "page_next [] = False"
| "page_next (ev # tr) = is_page_event ev"

text \<open>The reads and writes of the pages of region \<open>r\<close>.\<close>

fun visits_of :: "nat \<Rightarrow> event \<Rightarrow> event list" where
  "visits_of r (PageRead g k v) = (if g = r then [PageRead g k v] else [])"
| "visits_of r (PageWrite g k v) = (if g = r then [PageWrite g k v] else [])"
| "visits_of r _ = []"

text \<open>
  What a slot of the table holds as far as the events tell: the pointer that the last
  \<open>mmap\<close> for the slot stored in it, or \<open>MAP_FAILED\<close> once the release loop has called
  \<open>munmap\<close> for it; nothing before that.
\<close>

fun store :: "(nat \<Rightarrow> ptr option) \<Rightarrow> event \<Rightarrow> nat \<Rightarrow> ptr option" where
  "store h (MmapCall i p) = h(i := Some p)"
| "store h (MunmapCall ph i r ok) = (if ph = ReleasePhase then h(i := Some MAP_FAILED) else h)"
| "store h _ = h"

definition held :: "event list \<Rightarrow> nat \<Rightarrow> ptr option" where
  "held tr = foldl store (\<lambda>_. None) tr"

subsection \<open>The course of a run\<close>

text \<open>
  A reader of the events that knows how a worker runs. It keeps the place the worker
  has come to: before the start time is read (\<open>Fresh\<close>); at the top of the cycle loop
  (\<open>Top\<close>); after \<open>keep_running\<close> was read there as 1 (\<open>TopPolled\<close>); after the clock
  was read in the loop (\<open>Entered\<close>); after the flag was read as 1 for pass \<open>i\<close> of the
  loop of a phase (\<open>Polled\<close>); inside that pass (\<open>Inside\<close>); after the map pass for slot
  \<open>i\<close> has stored its pointer (\<open>Stored\<close>); after the loop of a phase was cut short by
  the flag (\<open>Cut\<close>); and behind the cycle loop (\<open>Ended\<close>). It also keeps what the slots
  hold, the pages that the access pass in hand has still to visit, and the value read
  from the first of them when its write is still to come. It marks the run as amiss at
  the first event that a worker at this place does not produce. It does not look at the
  time: after the clock was read in the loop, either the cycle goes on or the final loop
  and the merge follow.
\<close>

datatype place =
    Fresh | Top | TopPolled | Entered | Polled phase nat | Inside phase nat | Stored nat | Cut phase | Ended

record course =
  place :: place
  slots :: "nat \<Rightarrow> ptr option"
  due :: "(nat \<times> nat) list"
  got :: "8 word option"
  amiss :: bool

definition course0 :: course where
  "course0 = \<lparr>place = Fresh, slots = (\<lambda>_. None), due = [], got = None, amiss = False\<rparr>"

text \<open>
  The pass that begins when the flag is next read as 1, if the worker is inside a cycle:
  the next pass of the same loop, or the first pass of the loop of the following phase;
  none when the sleep at the end of the cycle comes next.
\<close>

fun following :: "phase \<Rightarrow> phase option" where
  "following MapPhase = Some AccessPhase"
| "following AccessPhase = Some ReleasePhase"
| "following ReleasePhase = None"
| "following CleanupLoop = None"

definition first_pass :: "nat \<Rightarrow> phase option \<Rightarrow> (phase \<times> nat) option" where
  "first_pass n next = (if 0 < n then map_option (\<lambda>ph. (ph, 0)) next else None)"

fun upcoming :: "nat \<Rightarrow> place \<Rightarrow> (phase \<times> nat) option" where
  "upcoming n Entered = first_pass n (Some MapPhase)"
| "upcoming n (Stored i) = (if Suc i < n then Some (MapPhase, Suc i) else first_pass n (Some AccessPhase))"
| "upcoming n (Inside ph i) =
     (if ph = MapPhase then None
      else if Suc i < n then Some (ph, Suc i) else first_pass n (following ph))"
| "upcoming n (Cut ph) = first_pass n (following ph)"
| "upcoming n _ = None"

fun in_cycle :: "place \<Rightarrow> bool" where
  "in_cycle Entered = True"
| "in_cycle (Stored i) = True"
| "in_cycle (Inside ph i) = (ph \<noteq> MapPhase)"
| "in_cycle (Cut ph) = True"
| "in_cycle _ = False"

definition wrong :: "course \<Rightarrow> course" where
  "wrong c = c\<lparr>amiss := True\<rparr>"

definition closing :: "course \<Rightarrow> course" where
  "closing c = (if place c = Ended \<or> place c = Entered then c\<lparr>place := Ended\<rparr> else wrong c)"

fun react :: "nat \<Rightarrow> nat \<Rightarrow> course \<Rightarrow> event \<Rightarrow> course" where
  "react n pages c (FlagRead b) =
     (if due c \<noteq> [] \<or> got c \<noteq> None then wrong c
      else if place c = Top then c\<lparr>place := (if b then TopPolled else Ended)\<rparr>
      else (case upcoming n (place c) of
              None \<Rightarrow> wrong c
            | Some (ph, i) \<Rightarrow> c\<lparr>place := (if b then Polled ph i else Cut ph)\<rparr>))"
| "react n pages c (TimeRead t) =
     (if place c = Fresh then c\<lparr>place := Top\<rparr>
      else if place c = TopPolled then c\<lparr>place := Entered\<rparr>
      else wrong c)"
| "react n pages c (Iter ph i) =
     (if ph = CleanupLoop then closing c
      else if place c \<noteq> Polled ph i then wrong c
      else if ph \<noteq> AccessPhase then c\<lparr>place := Inside ph i\<rparr>
      else (case slots c i of
              None \<Rightarrow> wrong c
            | Some MAP_FAILED \<Rightarrow> c\<lparr>place := Inside ph i\<rparr>
            | Some (Addr r) \<Rightarrow>
                c\<lparr>place := Inside ph i, due := map (\<lambda>j. (r, page_offset pages i j)) (visited pages)\<rparr>))"
| "react n pages c (MmapCall i p) = (if place c = Inside MapPhase i then c\<lparr>place := Stored i\<rparr> else wrong c)"
| "react n pages c (PageRead r k v) =
     (case due c of
        [] \<Rightarrow> wrong c
      | x # rest \<Rightarrow> if x = (r, k) \<and> got c = None then c\<lparr>got := Some v\<rparr> else wrong c)"
| "react n pages c (PageWrite r k v) =
     (case due c of
        [] \<Rightarrow> wrong c
      | x # rest \<Rightarrow>
          (case got c of
             None \<Rightarrow> wrong c
           | Some v0 \<Rightarrow> if x = (r, k) \<and> v = v0 + 1 then c\<lparr>due := rest, got := None\<rparr> else wrong c))"
| "react n pages c (MunmapCall ph i r ok) =
     (if ph = CleanupLoop then closing c
      else if ph = ReleasePhase \<and> place c = Inside ReleasePhase i \<and> slots c i = Some (Addr r) then c
      else wrong c)"
| "react n pages c (UninitRead ph i) = (if ph = CleanupLoop then closing c else wrong c)"
| "react n pages c (Usleep us) =
     (if due c = [] \<and> got c = None \<and> in_cycle (place c) \<and> upcoming n (place c) = None
      then c\<lparr>place := Top\<rparr> else wrong c)"
| "react n pages c (Merge k) = closing c"
| "react n pages c (Stderr msg) =
     (case msg of
        AllocFailed \<Rightarrow> if place c = Fresh then c\<lparr>place := Ended\<rparr> else wrong c
      | MmapFailed i \<Rightarrow> if place c = Stored i \<and> slots c i = Some MAP_FAILED then c else wrong c
      | MunmapFailed i \<Rightarrow> if place c = Inside ReleasePhase i then c else wrong c)"

definition advance :: "nat \<Rightarrow> nat \<Rightarrow> course \<Rightarrow> event \<Rightarrow> course" where
  "advance n pages c ev = (react n pages c ev)\<lparr>slots := store (slots c) ev\<rparr>"

definition course_of :: "nat \<Rightarrow> nat \<Rightarrow> event list \<Rightarrow> course" where
  "course_of n pages tr = foldl (advance n pages) course0 tr"

definition regular :: "nat \<Rightarrow> nat \<Rightarrow> event list \<Rightarrow> bool" where
  "regular n pages tr = (\<not> amiss (course_of n pages tr) \<and> place (course_of n pages tr) = Ended)"

text \<open>
  Notions for the proof that every run is regular. What the events tell of a slot is
  what the table holds; the pass a loop is about to poll for; what holds of the reader
  between two passes of any loop; that pages are due only inside a pass of the access
  loop; that a pass has an index below the number of slots; the events of the final loop
  and the merge; and the places from which the access pass for slot \<open>i\<close> is still to
  come in this cycle.
\<close>

fun view :: "slot \<Rightarrow> ptr option" where
  "view Junk = None"
| "view (Val p) = Some p"

definition at_head :: "nat \<Rightarrow> phase \<Rightarrow> nat \<Rightarrow> (phase \<times> nat) option" where
  "at_head n ph j = (if j < n then Some (ph, j) else first_pass n (following ph))"

definition followed :: "nat \<Rightarrow> nat \<Rightarrow> wstate \<Rightarrow> bool" where
  "followed n pages t \<longleftrightarrow>
     \<not> amiss (course_of n pages (trace t))
   \<and> due (course_of n pages (trace t)) = [] \<and> got (course_of n pages (trace t)) = None
   \<and> length (memory_regions t) = n
   \<and> (\<forall>i<n. held (trace t) i = view (memory_regions t ! i))"

definition tidy :: "course \<Rightarrow> bool" where
  "tidy c = ((due c = [] \<and> got c = None) \<or> (\<exists>i. place c = Inside AccessPhase i))"

fun bounded :: "nat \<Rightarrow> place \<Rightarrow> bool" where
  "bounded n (Polled ph i) = (i < n)"
| "bounded n (Inside ph i) = (i < n)"
| "bounded n (Stored i) = (i < n)"
| "bounded n _ = True"

fun is_closing :: "event \<Rightarrow> bool" where
  "is_closing (Iter ph i) = (ph = CleanupLoop)"
| "is_closing (MunmapCall ph i r ok) = (ph = CleanupLoop)"
| "is_closing (UninitRead ph i) = (ph = CleanupLoop)"
| "is_closing (Merge k) = True"
| "is_closing _ = False"

fun before :: "nat \<Rightarrow> nat \<Rightarrow> place \<Rightarrow> bool" where
  "before n i (Stored k) = (i \<le> k \<and> k < n)"
| "before n i (Inside ph k) = (ph = MapPhase \<and> i < k \<and> k < n \<or> ph = AccessPhase \<and> k < i)"
| "before n i (Polled ph k) = (ph = MapPhase \<and> i < k \<and> k < n \<or> ph = AccessPhase \<and> k \<le> i)"
| "before n i _ = False"

subsection \<open>Concrete runs\<close>

lemmas worker_eval =
  tlb_flush_worker_def run_cycles_def merge_counter_def time_call_def init_wstate_def emit_def
  cycles.simps keep_running_def stopped_def cleanup_def cleanup_iter_def read_slot_def munmap_def
  mmap_def cycle_def map_phase_def access_phase_def release_phase_def for_running.simps
  map_iter_def access_iter_def release_iter_def touch_pages.simps access_pages.simps
  access_page_def usleep_def upt_rec

text \<open>
  A worker with a table of two slots whose flag is cleared while the first map phase is
  under way: the reads of \<open>keep_running\<close> by the \<open>while\<close> and by the first pass of the
  map loop return 1, every later read returns 0.
\<close>

definition stopped_in_first_map :: env where
  "stopped_in_first_map =
     \<lparr>malloc_ok = True, junk = (\<lambda>_. Addr 0), stop = Some 2, mmap_ok = (\<lambda>_. True),
      munmap_ok = (\<lambda>_. True), lag = (\<lambda>_. 0)\<rparr>"

definition two_slots :: thread_data where
  "two_slots = \<lparr>thread_id = 0, pages_per_thread = 1, duration_seconds = 1, iterations_per_cycle = 2\<rparr>"

text \<open>Runs of \<open>main\<close>: the second \<open>pthread_create\<close> fails; every worker's \<open>malloc\<close> fails; all is well.\<close>

definition second_create_fails :: menv where
  "second_create_fails =
     \<lparr>threads_alloc_ok = True, data_alloc_ok = True, create_ok = (\<lambda>i. i = 0),
      worker_env = (\<lambda>_. stopped_in_first_map)\<rparr>"

definition worker_alloc_fails :: menv where
  "worker_alloc_fails =
     \<lparr>threads_alloc_ok = True, data_alloc_ok = True, create_ok = (\<lambda>_. True),
      worker_env = (\<lambda>_. stopped_in_first_map\<lparr>malloc_ok := False\<rparr>)\<rparr>"

definition all_created :: menv where
  "all_created =
     \<lparr>threads_alloc_ok = True, data_alloc_ok = True, create_ok = (\<lambda>_. True),
      worker_env = (\<lambda>_. stopped_in_first_map)\<rparr>"

text \<open>
  Workers with a table of two slots. In \<open>two_regions\<close>, with regions of six pages, the
  first \<open>mmap\<close> fails, the flag is never cleared and the clock passes the duration
  during the first cycle. In \<open>cut_in_access\<close>, with regions of one page, the flag is
  cleared while the access loop is in its first pass.
\<close>

definition two_regions :: env where
  "two_regions =
     \<lparr>malloc_ok = True, junk = (\<lambda>_. MAP_FAILED), stop = None, mmap_ok = (\<lambda>k. k = 1),
      munmap_ok = (\<lambda>_. True), lag = (\<lambda>k. if k = 2 then 1000000 else 0)\<rparr>"

definition cut_in_access :: env where
  "cut_in_access =
     \<lparr>malloc_ok = True, junk = (\<lambda>_. MAP_FAILED), stop = Some 4, mmap_ok = (\<lambda>_. True),
      munmap_ok = (\<lambda>_. True), lag = (\<lambda>_. 0)\<rparr>"

definition six_pages :: thread_data where
  "six_pages = \<lparr>thread_id = 0, pages_per_thread = 6, duration_seconds = 1, iterations_per_cycle = 2\<rparr>"

text \<open>
  Workers with a table of one slot and a region of one page. In \<open>one_cycle\<close> the flag is
  never cleared and the clock passes the duration during the first cycle; in
  \<open>release_fails\<close> every \<open>munmap\<close> fails as well; in \<open>cleanup_fails\<close> the flag is cleared
  after the map phase and every \<open>munmap\<close> fails; in \<open>table_alloc_fails\<close> the worker's
  \<open>malloc\<close> fails.
\<close>

definition one_slot :: thread_data where
  "one_slot = \<lparr>thread_id = 0, pages_per_thread = 1, duration_seconds = 1, iterations_per_cycle = 1\<rparr>"

definition one_cycle :: env where
  "one_cycle =
     \<lparr>malloc_ok = True, junk = (\<lambda>_. MAP_FAILED), stop = None, mmap_ok = (\<lambda>_. True),
      munmap_ok = (\<lambda>_. True), lag = (\<lambda>k. if k = 2 then 1000000 else 0)\<rparr>"


definition cleanup_fails :: env where
  "cleanup_fails = one_cycle\<lparr>stop := Some 2, munmap_ok := (\<lambda>_. False)\<rparr>"

definition table_alloc_fails :: env where
  "table_alloc_fails = one_cycle\<lparr>malloc_ok := False\<rparr>"

section \<open>Lemmas\<close>

subsection \<open>\<open>main\<close>\<close>

lemma launch_all_created:
  assumes "\<And>j. i \<le> j \<Longrightarrow> j < n \<Longrightarrow> create_ok m j" and "i \<le> n"
  shows "fst (launch m n i ths) = n \<and> \<not> fst (snd (launch m n i ths))"
  using assms
proof (induction "n - i" arbitrary: i ths)
  case 0
  then have "\<not> i < n" by simp
  then show ?case using 0(3) by (subst launch.simps, subst (2) launch.simps) simp
next
  case (Suc k)
  then have "i < n" and "create_ok m i" by simp_all
  moreover have "fst (launch m n (Suc i) (ths[i := Thread i])) = n
      \<and> \<not> fst (snd (launch m n (Suc i) (ths[i := Thread i])))"
    using Suc(1) [of "Suc i"] Suc(2) Suc(3) \<open>i < n\<close> by simp
  ultimately show ?case by (simp add: launch.simps [of m n i ths])
qed

lemma launch_stops_at_failure:
  assumes "\<And>j. i \<le> j \<Longrightarrow> j < k \<Longrightarrow> create_ok m j" and "\<not> create_ok m k" and "i \<le> k" and "k < n"
  shows "fst (launch m n i ths) = k \<and> fst (snd (launch m n i ths))"
  using assms
proof (induction "k - i" arbitrary: i ths)
  case 0
  then have "i = k" by simp
  with 0 show ?case by (simp add: launch.simps [of m n k ths])
next
  case (Suc d)
  then have "i < k" and "create_ok m i" by simp_all
  moreover have "fst (launch m n (Suc i) (ths[i := Thread i])) = k
      \<and> fst (snd (launch m n (Suc i) (ths[i := Thread i])))"
    using Suc(1) [of "Suc i"] Suc(2) Suc(3) Suc(4) Suc(6) \<open>i < k\<close> by simp
  ultimately show ?case using \<open>k < n\<close> by (simp add: launch.simps [of m n i ths])
qed

text \<open>
  The table after the launch loop: the handles of the threads created, and behind them
  the slots the loop did not get to, among them the slot of a creation that failed.
\<close>

lemma launch_table:
  assumes "i \<le> n" and "length ths = n" and "\<forall>j<i. ths ! j = Thread j"
    and "\<forall>j. i \<le> j \<and> j < n \<longrightarrow> ths ! j = Unwritten"
  shows "snd (snd (launch m n i ths))
       = map Thread [0..<fst (launch m n i ths)] @ replicate (n - fst (launch m n i ths)) Unwritten"
  using assms
proof (induction "n - i" arbitrary: i ths)
  case 0
  then have "i = n" by simp
  with 0 have "ths = map Thread [0..<n]"
    by (intro nth_equalityI) simp_all
  moreover have "launch m n i ths = (n, False, ths)"
    using \<open>i = n\<close> by (subst launch.simps) simp
  ultimately show ?case by simp
next
  case (Suc d)
  then have i: "i < n" by simp
  show ?case
  proof (cases "create_ok m i")
    case False
    have "ths = map Thread [0..<i] @ replicate (n - i) Unwritten"
      using Suc(4,5,6) i by (intro nth_equalityI) (auto simp: nth_append)
    moreover have "launch m n i ths = (i, True, ths)"
      using False i by (subst launch.simps) simp
    ultimately show ?thesis by simp
  next
    case True
    have "snd (snd (launch m n (Suc i) (ths[i := Thread i])))
       = map Thread [0..<fst (launch m n (Suc i) (ths[i := Thread i]))]
           @ replicate (n - fst (launch m n (Suc i) (ths[i := Thread i]))) Unwritten"
      using Suc(2,4,5,6) i by (intro Suc(1)) (auto simp: nth_list_update less_Suc_eq)
    moreover have "launch m n i ths = launch m n (Suc i) (ths[i := Thread i])"
      using True i by (subst launch.simps) simp
    ultimately show ?thesis by simp
  qed
qed

lemma join_all_table: "length ths = n \<Longrightarrow> join_all n ths = ths"
  by (auto simp: join_all_def intro: nth_equalityI)

lemma length_launch: "length (snd (snd (launch m n i ths))) = length ths"
proof (induction "n - i" arbitrary: i ths)
  case 0
  then show ?case by (subst launch.simps) simp
next
  case (Suc d)
  then have "length (snd (snd (launch m n (Suc i) (ths[i := Thread i])))) = length (ths[i := Thread i])"
    by (intro Suc(1)) simp
  then show ?case by (simp add: launch.simps [of m n i ths])
qed

lemma exit_status_run_threads [simp]: "exit_status (run_threads m c) = 0"
  by (simp add: run_threads_def split: prod.splits)

lemma workers_run_threads:
  "workers (run_threads m c) =
     map (\<lambda>i. tlb_flush_worker (worker_env m i) (thread_data_of c i))
       [0..<fst (launch m (nat (num_threads c)) 0 (replicate (nat (num_threads c)) Unwritten))]"
  by (simp add: run_threads_def split: prod.splits)

lemma shutdown_run_threads:
  "shutdown_raised (run_threads m c)
     = fst (snd (launch m (nat (num_threads c)) 0 (replicate (nat (num_threads c)) Unwritten)))"
  by (simp add: run_threads_def split: prod.splits)

lemma stderr_run_threads:
  "stderr (run_threads m c) =
     (if fst (snd (launch m (nat (num_threads c)) 0 (replicate (nat (num_threads c)) Unwritten)))
      then [CreateFailed (fst (launch m (nat (num_threads c)) 0 (replicate (nat (num_threads c)) Unwritten)))]
      else [])"
  by (simp add: run_threads_def split: prod.splits)

lemma joined_run_threads:
  "joined (run_threads m c) =
     map Thread [0..<fst (launch m (nat (num_threads c)) 0 (replicate (nat (num_threads c)) Unwritten))]
       @ replicate (nat (num_threads c) - fst (launch m (nat (num_threads c)) 0 (replicate (nat (num_threads c)) Unwritten)))
           Unwritten"
proof -
  let ?n = "nat (num_threads c)"
  let ?l = "launch m ?n 0 (replicate ?n Unwritten)"
  have "joined (run_threads m c) = join_all ?n (snd (snd ?l))"
    by (simp add: run_threads_def split: prod.splits)
  also have "\<dots> = snd (snd ?l)"
    by (rule join_all_table) (simp add: length_launch)
  also have "\<dots> = map Thread [0..<fst ?l] @ replicate (?n - fst ?l) Unwritten"
    by (rule launch_table) simp_all
  finally show ?thesis .
qed

lemma main_Run:
  "parse_args args defaults = Run c \<Longrightarrow> threads_alloc_ok m \<Longrightarrow> data_alloc_ok m
     \<Longrightarrow> main args m = run_threads m c"
  by (simp add: main_def)


text \<open>A value that does not fit an \<open>int\<close> wraps around.\<close>

lemma atoi_wraps:
  "atoi ''2147483648'' = - 2147483648"
  "atoi ''4294967297'' = 1"
  by (simp_all add: atoi_def strtol_def isspace_def digit_of_def)

text \<open>Whatever the string, the value is an \<open>int\<close>.\<close>

lemma atoi_is_int: "is_int (atoi str)"
proof -
  have "- (2 ^ (LENGTH(32) - 1)) \<le> sint (word_of_int (strtol str) :: 32 word)"
    by (rule sint_ge)
  moreover have "sint (word_of_int (strtol str) :: 32 word) < 2 ^ (LENGTH(32) - 1)"
    by (rule sint_lt)
  ultimately show ?thesis by (simp add: atoi_def is_int_def)
qed

lemma atoi_2: "atoi ''2'' = 2"
  by (simp add: atoi_def strtol_def isspace_def digit_of_def)

lemma parse_two_threads: "parse_args [Opt_t ''2''] defaults = Run (defaults\<lparr>num_threads := 2\<rparr>)"
  by (simp add: atoi_2)

lemma atoi_1: "atoi ''1'' = 1"
  by (simp add: atoi_def strtol_def isspace_def digit_of_def)

lemma parse_one_thread: "parse_args [Opt_t ''1''] defaults = Run (defaults\<lparr>num_threads := 1\<rparr>)"
  by (simp add: atoi_1)

lemma launch_one:
  "fst (launch worker_alloc_fails (Suc 0) 0 ths) = Suc 0 \<and> \<not> fst (snd (launch worker_alloc_fails (Suc 0) 0 ths))"
  by (rule launch_all_created) (simp_all add: worker_alloc_fails_def)

lemma parse_args_accepted:
  "list_all accepted pre \<Longrightarrow> parse_args (pre @ rest) c = parse_args rest (fold stored pre c)"
proof (induction pre arbitrary: c)
  case Nil
  then show ?case by simp
next
  case (Cons a pre)
  then show ?case by (cases a) auto
qed

lemma parse_args_out_of_bounds:
  "out_of_bounds a \<Longrightarrow> parse_args (a # post) c = Return 1 (complaint a) False"
  by (cases a) auto

lemma atoi_4abc: "atoi ''4abc'' = 4"
  by (simp add: atoi_def strtol_def isspace_def digit_of_def)

lemma atoi_0: "atoi ''0'' = 0"
  by (simp add: atoi_def strtol_def isspace_def digit_of_def)

lemma atoi_65: "atoi ''65'' = 65"
  by (simp add: atoi_def strtol_def isspace_def digit_of_def)

lemma worker_alloc_fails_run:
  "main [Opt_t ''1''] worker_alloc_fails = run_threads worker_alloc_fails (defaults\<lparr>num_threads := 1\<rparr>)"
  "workers (run_threads worker_alloc_fails (defaults\<lparr>num_threads := 1\<rparr>)) = [emit (Stderr AllocFailed) init_wstate]"
proof -
  show "main [Opt_t ''1''] worker_alloc_fails = run_threads worker_alloc_fails (defaults\<lparr>num_threads := 1\<rparr>)"
    by (rule main_Run [OF parse_one_thread]) (simp_all add: worker_alloc_fails_def)
  have "tlb_flush_worker (worker_env worker_alloc_fails 0) d = emit (Stderr AllocFailed) init_wstate" for d
    by (simp add: tlb_flush_worker_def worker_alloc_fails_def)
  then show "workers (run_threads worker_alloc_fails (defaults\<lparr>num_threads := 1\<rparr>)) = [emit (Stderr AllocFailed) init_wstate]"
    by (simp add: workers_run_threads launch_one)
qed

subsection \<open>Rules for the loops\<close>

lemma snd_keep_running:
  "snd (keep_running e s) = s\<lparr>flag_reads := Suc (flag_reads s), trace := trace s @ [FlagRead (\<not> stopped e s)]\<rparr>"
  by (simp add: keep_running_def emit_def)

lemma fst_keep_running: "fst (keep_running e s) = (\<not> stopped e s)"
  by (simp add: keep_running_def)

lemma for_running_rule:
  assumes "P i s"
    and step: "\<And>j t. P j t \<Longrightarrow> j < n \<Longrightarrow> \<not> stopped e t \<Longrightarrow> P (Suc j) (body j (snd (keep_running e t)))"
    and stop: "\<And>j t. P j t \<Longrightarrow> j < n \<Longrightarrow> stopped e t \<Longrightarrow> Q (snd (keep_running e t))"
    and finish: "\<And>j t. P j t \<Longrightarrow> n \<le> j \<Longrightarrow> Q t"
  shows "Q (for_running e n body i s)"
  using assms(1)
proof (induction "n - i" arbitrary: i s)
  case 0
  then have "n \<le> i" by simp
  with 0 finish show ?case by (simp add: for_running.simps [of e n body i s])
next
  case (Suc k)
  then have i: "i < n" by simp
  show ?case
  proof (cases "stopped e s")
    case True
    with i have "for_running e n body i s = snd (keep_running e s)"
      by (simp add: for_running.simps [of e n body i s] keep_running_def)
    with stop [OF Suc(3) i True] show ?thesis by simp
  next
    case False
    with i have "for_running e n body i s = for_running e n body (Suc i) (body i (snd (keep_running e s)))"
      by (simp add: for_running.simps [of e n body i s] keep_running_def)
    moreover have "Q (for_running e n body (Suc i) (body i (snd (keep_running e s))))"
      using Suc(1) [of "Suc i"] Suc(2) step [OF Suc(3) i False] by simp
    ultimately show ?thesis by simp
  qed
qed

lemma cycles_unfold:
  "cycles e d st s =
     (if stopped e s then snd (keep_running e s)
      else if duration_seconds d \<le> fst (time_call e (snd (keep_running e s))) - st
           then snd (time_call e (snd (keep_running e s)))
           else cycles e d st (cycle e d (snd (time_call e (snd (keep_running e s))))))"
  by (subst cycles.simps) (simp add: keep_running_def split: prod.splits)

lemma now_time_call: "now (snd (time_call e s)) = now s + lag e (time_calls s)"
  by (simp add: time_call_def emit_def)

lemma fst_time_call: "fst (time_call e s) = int (now (snd (time_call e s)) div 1000000)"
  by (simp add: time_call_def emit_def)

lemma cycles_measure:
  assumes "\<not> duration_seconds d \<le> fst (time_call e (snd (keep_running e s))) - st"
  shows "nat ((st + duration_seconds d) * 1000000 - int (now (cycle e d (snd (time_call e (snd (keep_running e s)))))))
       < nat ((st + duration_seconds d) * 1000000 - int (now s))"
proof -
  let ?s2 = "snd (time_call e (snd (keep_running e s)))"
  have "int (now ?s2 div 1000000) < st + duration_seconds d"
    using assms by (simp add: fst_time_call)
  then have "int (now ?s2) < (st + duration_seconds d) * 1000000"
    by (simp add: zdiv_int [symmetric] div_less_iff_less_mult)
  moreover have "now s \<le> now ?s2" by (simp add: now_time_call)
  ultimately show ?thesis by (simp add: now_cycle)
qed

lemma cycles_rule:
  assumes "P s"
    and stop: "\<And>t. P t \<Longrightarrow> stopped e t \<Longrightarrow> Q (snd (keep_running e t))"
    and over: "\<And>t. P t \<Longrightarrow> \<not> stopped e t
        \<Longrightarrow> duration_seconds d \<le> fst (time_call e (snd (keep_running e t))) - st
        \<Longrightarrow> Q (snd (time_call e (snd (keep_running e t))))"
    and step: "\<And>t. P t \<Longrightarrow> \<not> stopped e t
        \<Longrightarrow> \<not> duration_seconds d \<le> fst (time_call e (snd (keep_running e t))) - st
        \<Longrightarrow> P (cycle e d (snd (time_call e (snd (keep_running e t)))))"
  shows "Q (cycles e d st s)"
  using assms(1)
proof (induction "nat ((st + duration_seconds d) * 1000000 - int (now s))" arbitrary: s rule: less_induct)
  case less
  show ?case
  proof (cases "stopped e s")
    case True
    with stop [OF less(2) True] show ?thesis by (subst cycles_unfold) simp
  next
    case False
    show ?thesis
    proof (cases "duration_seconds d \<le> fst (time_call e (snd (keep_running e s))) - st")
      case True
      with over [OF less(2) False True] False show ?thesis by (subst cycles_unfold) simp
    next
      case over': False
      have "Q (cycles e d st (cycle e d (snd (time_call e (snd (keep_running e s))))))"
        using less(1) [OF cycles_measure [OF over']] step [OF less(2) False over'] .
      with False over' show ?thesis by (subst cycles_unfold) simp
    qed
  qed
qed

lemma fold_upt_rule:
  assumes "P 0 s" and "\<And>i t. P i t \<Longrightarrow> i < n \<Longrightarrow> P (Suc i) (f i t)"
  shows "P n (fold f [0..<n] s)"
  using assms
proof (induction n)
  case 0
  then show ?case by simp
next
  case (Suc n)
  have "P n (fold f [0..<n] s)"
    using Suc(1) [OF Suc(2)] Suc(3) by simp
  then show ?case using Suc(3) [of n "fold f [0..<n] s"] by simp
qed

subsection \<open>What one pass of each loop does to the state\<close>

lemma map_iter_fields:
  "memory_regions (map_iter e d i t) =
     (memory_regions t)[i := Val (if mmap_ok e (mmap_calls t) then Addr (mmap_calls t) else MAP_FAILED)]"
  "thread_tlb_flushes (map_iter e d i t) = thread_tlb_flushes t"
  "mapped (map_iter e d i t) = (if mmap_ok e (mmap_calls t) then insert (mmap_calls t) (mapped t) else mapped t)"
  "flag_reads (map_iter e d i t) = flag_reads t"
  "mmap_calls (map_iter e d i t) = Suc (mmap_calls t)"
  "munmap_calls (map_iter e d i t) = munmap_calls t"
  "trace (map_iter e d i t) =
     trace t @ [Iter MapPhase i, MmapCall i (if mmap_ok e (mmap_calls t) then Addr (mmap_calls t) else MAP_FAILED)]
       @ (if mmap_ok e (mmap_calls t) then [] else [Stderr (MmapFailed i)])"
proof -
  obtain m where "touch_pages (pages_per_thread d) (mmap_calls t) i 0
      (emit (MmapCall i (Addr (mmap_calls t)))
        (t\<lparr>trace := trace t @ [Iter MapPhase i], mmap_calls := Suc (mmap_calls t),
           mapped := insert (mmap_calls t) (mapped t), mem := (mem t)(mmap_calls t := (\<lambda>_. 0)),
           memory_regions := (memory_regions t)[i := Val (Addr (mmap_calls t))]\<rparr>))
    = (emit (MmapCall i (Addr (mmap_calls t)))
        (t\<lparr>trace := trace t @ [Iter MapPhase i], mmap_calls := Suc (mmap_calls t),
           mapped := insert (mmap_calls t) (mapped t), mem := (mem t)(mmap_calls t := (\<lambda>_. 0)),
           memory_regions := (memory_regions t)[i := Val (Addr (mmap_calls t))]\<rparr>))\<lparr>mem := m\<rparr>"
    using touch_pages_only_mem by blast
  then show
  "memory_regions (map_iter e d i t) =
     (memory_regions t)[i := Val (if mmap_ok e (mmap_calls t) then Addr (mmap_calls t) else MAP_FAILED)]"
  "thread_tlb_flushes (map_iter e d i t) = thread_tlb_flushes t"
  "mapped (map_iter e d i t) = (if mmap_ok e (mmap_calls t) then insert (mmap_calls t) (mapped t) else mapped t)"
  "flag_reads (map_iter e d i t) = flag_reads t"
  "mmap_calls (map_iter e d i t) = Suc (mmap_calls t)"
  "munmap_calls (map_iter e d i t) = munmap_calls t"
  "trace (map_iter e d i t) =
     trace t @ [Iter MapPhase i, MmapCall i (if mmap_ok e (mmap_calls t) then Addr (mmap_calls t) else MAP_FAILED)]
       @ (if mmap_ok e (mmap_calls t) then [] else [Stderr (MmapFailed i)])"
    by (simp_all add: map_iter_def mmap_def emit_def)
qed

lemma access_iter_fields:
  assumes "memory_regions t ! i = Val p"
  shows "memory_regions (access_iter e d i t) = memory_regions t"
    and "thread_tlb_flushes (access_iter e d i t) = thread_tlb_flushes t"
    and "mapped (access_iter e d i t) = mapped t"
    and "flag_reads (access_iter e d i t) = flag_reads t"
    and "mmap_calls (access_iter e d i t) = mmap_calls t"
    and "munmap_calls (access_iter e d i t) = munmap_calls t"
    and "\<exists>tp. trace (access_iter e d i t) = trace t @ Iter AccessPhase i # tp \<and> list_all is_page_event tp"
proof -
  have "\<exists>m tp. access_iter e d i t = t\<lparr>mem := m, trace := trace t @ Iter AccessPhase i # tp\<rparr> \<and> list_all is_page_event tp"
  proof (cases p)
    case MAP_FAILED
    have "t\<lparr>trace := trace t @ [Iter AccessPhase i]\<rparr> = t\<lparr>mem := mem t, trace := trace t @ Iter AccessPhase i # []\<rparr>"
      by simp
    moreover have "access_iter e d i t = t\<lparr>trace := trace t @ [Iter AccessPhase i]\<rparr>"
      using assms MAP_FAILED by (simp add: access_iter_def read_slot_def emit_def)
    ultimately have "access_iter e d i t = t\<lparr>mem := mem t, trace := trace t @ Iter AccessPhase i # []\<rparr> \<and> list_all is_page_event []"
      by simp
    then show ?thesis by blast
  next
    case (Addr r)
    obtain m tp where "access_pages (pages_per_thread d) r i 0 (t\<lparr>trace := trace t @ [Iter AccessPhase i]\<rparr>)
        = (t\<lparr>trace := trace t @ [Iter AccessPhase i]\<rparr>)\<lparr>mem := m, trace := trace (t\<lparr>trace := trace t @ [Iter AccessPhase i]\<rparr>) @ tp\<rparr>"
      and "list_all is_page_event tp"
      using access_pages_only_mem by blast
    then have "access_iter e d i t = t\<lparr>mem := m, trace := trace t @ Iter AccessPhase i # tp\<rparr> \<and> list_all is_page_event tp"
      using assms Addr by (simp add: access_iter_def read_slot_def emit_def)
    then show ?thesis by blast
  qed
  then obtain m tp where a: "access_iter e d i t = t\<lparr>mem := m, trace := trace t @ Iter AccessPhase i # tp\<rparr>"
    and tp: "list_all is_page_event tp" by blast
  from a show "memory_regions (access_iter e d i t) = memory_regions t"
    and "thread_tlb_flushes (access_iter e d i t) = thread_tlb_flushes t"
    and "mapped (access_iter e d i t) = mapped t"
    and "flag_reads (access_iter e d i t) = flag_reads t"
    and "mmap_calls (access_iter e d i t) = mmap_calls t"
    and "munmap_calls (access_iter e d i t) = munmap_calls t"
    by simp_all
  from a tp show "\<exists>tp. trace (access_iter e d i t) = trace t @ Iter AccessPhase i # tp \<and> list_all is_page_event tp"
    by simp
qed

lemma release_iter_empty:
  "memory_regions t ! i = Val MAP_FAILED \<Longrightarrow> release_iter e i t = t\<lparr>trace := trace t @ [Iter ReleasePhase i]\<rparr>"
  by (simp add: release_iter_def read_slot_def emit_def)

lemma release_iter_fields:
  assumes "memory_regions t ! i = Val (Addr r)"
  shows "memory_regions (release_iter e i t) = (memory_regions t)[i := Val MAP_FAILED]"
    and "thread_tlb_flushes (release_iter e i t) =
           (if munmap_ok e (munmap_calls t) then thread_tlb_flushes t + 1 else thread_tlb_flushes t)"
    and "mapped (release_iter e i t) = (if munmap_ok e (munmap_calls t) then mapped t - {r} else mapped t)"
    and "flag_reads (release_iter e i t) = flag_reads t"
    and "mmap_calls (release_iter e i t) = mmap_calls t"
    and "munmap_calls (release_iter e i t) = Suc (munmap_calls t)"
    and "trace (release_iter e i t) =
           trace t @ [Iter ReleasePhase i, MunmapCall ReleasePhase i r (munmap_ok e (munmap_calls t))]
             @ (if munmap_ok e (munmap_calls t) then [] else [Stderr (MunmapFailed i)])"
  using assms by (simp_all add: release_iter_def read_slot_def munmap_def emit_def)

lemma cleanup_iter_fields:
  "memory_regions (cleanup_iter e i t) = memory_regions t"
  "thread_tlb_flushes (cleanup_iter e i t) = thread_tlb_flushes t"
  "mmap_calls (cleanup_iter e i t) = mmap_calls t"
  by (simp_all add: cleanup_iter_def read_slot_def munmap_def emit_def split: slot.splits ptr.splits)

lemma cleanup_iter_Val:
  "memory_regions t ! i = Val MAP_FAILED \<Longrightarrow> cleanup_iter e i t = t\<lparr>trace := trace t @ [Iter CleanupLoop i]\<rparr>"
  "memory_regions t ! i = Val (Addr r) \<Longrightarrow>
     trace (cleanup_iter e i t) = trace t @ [Iter CleanupLoop i, MunmapCall CleanupLoop i r (munmap_ok e (munmap_calls t))]
     \<and> mapped (cleanup_iter e i t) = (if munmap_ok e (munmap_calls t) then mapped t - {r} else mapped t)"
  by (simp_all add: cleanup_iter_def read_slot_def munmap_def emit_def)

lemma cleanup_iter_Junk:
  "memory_regions t ! i = Junk \<Longrightarrow>
     \<exists>tc. trace (cleanup_iter e i t) = trace t @ Iter CleanupLoop i # UninitRead CleanupLoop i # tc
        \<and> mapped (cleanup_iter e i t) \<subseteq> mapped t"
  by (auto simp: cleanup_iter_def read_slot_def munmap_def emit_def split: ptr.splits)

subsection \<open>The invariant of the cycle loop\<close>

lemma counts_append [simp]:
  "maps_ok (tr @ tr') = maps_ok tr + maps_ok tr'"
  "releases_ok (tr @ tr') = releases_ok tr + releases_ok tr'"
  "munmaps_ok (tr @ tr') = munmaps_ok tr + munmaps_ok tr'"
  "released (tr @ tr') = released tr @ released tr'"
  "cleaned (tr @ tr') = cleaned tr @ cleaned tr'"
  "merges (tr @ tr') = merges tr @ merges tr'"
  by (simp_all add: maps_ok_def releases_ok_def munmaps_ok_def released_def cleaned_def merges_def)

lemma counts_Nil [simp]:
  "maps_ok [] = 0" "releases_ok [] = 0" "munmaps_ok [] = 0" "released [] = []" "cleaned [] = []" "merges [] = []"
  by (simp_all add: maps_ok_def releases_ok_def munmaps_ok_def released_def cleaned_def merges_def)

lemma counts_Cons [simp]:
  "maps_ok (ev # tr) = (if is_map_ok ev then Suc (maps_ok tr) else maps_ok tr)"
  "releases_ok (ev # tr) = (if is_release_ok ev then Suc (releases_ok tr) else releases_ok tr)"
  "munmaps_ok (ev # tr) = (if is_munmap_ok ev then Suc (munmaps_ok tr) else munmaps_ok tr)"
  "released (ev # tr) = released_of ev @ released tr"
  "cleaned (ev # tr) = cleaned_of ev @ cleaned tr"
  "merges (ev # tr) = merged_of ev @ merges tr"
  by (simp_all add: maps_ok_def releases_ok_def munmaps_ok_def released_def cleaned_def merges_def)

lemma live_update:
  assumes "i < length xs"
  shows "\<exists>a b. concat (map region_of xs) = a @ region_of (xs ! i) @ b
             \<and> concat (map region_of (xs[i := x])) = a @ region_of x @ b"
proof -
  have "xs = take i xs @ xs ! i # drop (Suc i) xs"
    using assms by (simp add: id_take_nth_drop)
  then have "concat (map region_of xs)
      = concat (map region_of (take i xs)) @ region_of (xs ! i) @ concat (map region_of (drop (Suc i) xs))"
    by (metis concat.simps(2) concat_append list.simps(9) map_append)
  moreover have "xs[i := x] = take i xs @ x # drop (Suc i) xs"
    using assms by (simp add: upd_conv_take_nth_drop)
  then have "concat (map region_of (xs[i := x]))
      = concat (map region_of (take i xs)) @ region_of x @ concat (map region_of (drop (Suc i) xs))"
    by simp
  ultimately show ?thesis by blast
qed

lemma page_events_not_counted:
  "list_all is_page_event tp \<Longrightarrow>
     maps_ok tp = 0 \<and> releases_ok tp = 0 \<and> munmaps_ok tp = 0
   \<and> filter is_release_failed tp = [] \<and> filter is_munmap_log tp = [] \<and> filter is_uninit_read tp = []
   \<and> released tp = [] \<and> cleaned tp = [] \<and> merges tp = []"
proof (induction tp)
  case Nil
  then show ?case by simp
next
  case (Cons ev tp)
  then show ?case by (cases ev) simp_all
qed

lemma stopped_keep_running: "stopped e t \<Longrightarrow> stopped e (snd (keep_running e t))"
  by (simp add: stopped_def snd_keep_running split: option.splits)

lemma accounted_keep_running: "accounted e n t \<Longrightarrow> accounted e n (snd (keep_running e t))"
  by (simp add: accounted_def snd_keep_running live_def filled_def)

lemma accounted_map_iter:
  assumes "accounted e n t" and "j < n" and "region_of (memory_regions t ! j) = []"
  shows "accounted e n (map_iter e d j t)"
proof -
  from assms(1) have len: "length (memory_regions t) = n" by (simp add: accounted_def)
  let ?p = "if mmap_ok e (mmap_calls t) then Addr (mmap_calls t) else MAP_FAILED"
  obtain a b where a: "live t = a @ b" and b: "live (map_iter e d j t) = a @ region_of (Val ?p) @ b"
    using live_update [of j "memory_regions t" "Val ?p"] assms(2,3) len
    by (auto simp: live_def map_iter_fields)
  have f: "filled t \<Longrightarrow> filled (map_iter e d j t)"
    by (auto simp: filled_def map_iter_fields dest: set_update_subset_insert [THEN subsetD])
  show ?thesis
  proof (cases "mmap_ok e (mmap_calls t)")
    case True
    with assms(1) a b f show ?thesis
      by (auto simp: accounted_def map_iter_fields intro: less_SucI)
  next
    case False
    with assms(1) a b f show ?thesis
      by (auto simp: accounted_def map_iter_fields intro: less_SucI)
  qed
qed

lemma accounted_access_iter:
  assumes "accounted e n t" and "memory_regions t ! j = Val p"
  shows "accounted e n (access_iter e d j t)"
proof -
  obtain tp where tp: "trace (access_iter e d j t) = trace t @ Iter AccessPhase j # tp"
    and "list_all is_page_event tp"
    using access_iter_fields(7) [OF assms(2)] by blast
  from page_events_not_counted [OF this(2)] tp assms(1) show ?thesis
    by (simp add: accounted_def access_iter_fields(1-6) [OF assms(2)] live_def filled_def)
qed

lemma filled_nth: "filled t \<Longrightarrow> j < length (memory_regions t) \<Longrightarrow> \<exists>p. memory_regions t ! j = Val p"
  by (cases "memory_regions t ! j") (auto simp: filled_def dest: nth_mem)

lemma accounted_release_iter:
  assumes "accounted e n t" and "j < n" and "filled t"
  shows "accounted e n (release_iter e j t) \<and> filled (release_iter e j t)
       \<and> region_of (memory_regions (release_iter e j t) ! j) = []
       \<and> (\<forall>k. k \<noteq> j \<longrightarrow> memory_regions (release_iter e j t) ! k = memory_regions t ! k)"
proof -
  from assms(1) have len: "length (memory_regions t) = n" by (simp add: accounted_def)
  obtain p where p: "memory_regions t ! j = Val p"
    using filled_nth [OF assms(3)] assms(2) len by blast
  show ?thesis
  proof (cases p)
    case MAP_FAILED
    with assms p show ?thesis
      by (simp add: release_iter_empty accounted_def live_def filled_def)
  next
    case (Addr r)
    note f = release_iter_fields [OF p [unfolded Addr]]
    obtain a b where a: "live t = a @ [r] @ b" and b: "live (release_iter e j t) = a @ b"
      using live_update [of j "memory_regions t" "Val MAP_FAILED"] assms(2) p len Addr
      by (auto simp: live_def f)
    have fl: "filled (release_iter e j t)"
      using assms(3) by (auto simp: filled_def f dest: set_update_subset_insert [THEN subsetD])
    have "accounted e n (release_iter e j t)"
    proof (cases "munmap_ok e (munmap_calls t)")
      case True
      with assms(1) a b fl show ?thesis
        by (auto simp: accounted_def f)
    next
      case False
      with assms(1) a b fl show ?thesis
        by (auto simp: accounted_def f)
    qed
    with fl len assms(2) show ?thesis by (simp add: f)
  qed
qed

lemma memory_regions_keep_running [simp]: "memory_regions (snd (keep_running e t)) = memory_regions t"
  by (simp add: snd_keep_running)

lemma live_keep_running [simp]: "live (snd (keep_running e t)) = live t"
  by (simp add: live_def)

lemma filled_keep_running [simp]: "filled (snd (keep_running e t)) = filled t"
  by (simp add: filled_def)

lemma stopped_same_reads: "flag_reads t' = flag_reads t \<Longrightarrow> stopped e t' = stopped e t"
  by (simp add: stopped_def split: option.splits)

lemma stopped_usleep [simp]: "stopped e (usleep us t) = stopped e t"
  by (rule stopped_same_reads) (simp add: usleep_def emit_def)

lemma live_usleep [simp]: "live (usleep us t) = live t"
  by (simp add: live_def usleep_def emit_def)

lemma stopped_time_call [simp]: "stopped e (snd (time_call e' t)) = stopped e t"
  by (rule stopped_same_reads) (simp add: time_call_def emit_def)

lemma live_time_call [simp]: "live (snd (time_call e t)) = live t"
  by (simp add: live_def time_call_def emit_def)

lemma live_Nil_iff:
  "live t = [] \<longleftrightarrow> (\<forall>k < length (memory_regions t). region_of (memory_regions t ! k) = [])"
  by (simp add: live_def all_set_conv_all_nth)

lemma filled_iff: "filled t \<longleftrightarrow> (\<forall>k < length (memory_regions t). memory_regions t ! k \<noteq> Junk)"
  by (auto simp: filled_def in_set_conv_nth)

lemma map_phase_accounted:
  assumes "accounted e (iterations_per_cycle d) s" and "stopped e s \<or> live s = []"
  shows "accounted e (iterations_per_cycle d) (map_phase e d s)
       \<and> (stopped e (map_phase e d s) \<or> filled (map_phase e d s))"
  unfolding map_phase_def
proof (rule for_running_rule [where P = "\<lambda>j t. accounted e (iterations_per_cycle d) t
      \<and> (stopped e t \<or> (\<forall>k<j. memory_regions t ! k \<noteq> Junk)
            \<and> (\<forall>k. j \<le> k \<and> k < iterations_per_cycle d \<longrightarrow> region_of (memory_regions t ! k) = []))"],
    goal_cases)
  case 1
  from assms show ?case by (auto simp: live_Nil_iff accounted_def)
next
  case (2 j t)
  let ?t1 = "snd (keep_running e t)"
  from 2 have free: "region_of (memory_regions ?t1 ! j) = []"
    and pre: "\<forall>k<j. memory_regions t ! k \<noteq> Junk"
    and post: "\<forall>k. j \<le> k \<and> k < iterations_per_cycle d \<longrightarrow> region_of (memory_regions t ! k) = []"
    by auto
  from 2 have len: "length (memory_regions t) = iterations_per_cycle d" by (simp add: accounted_def)
  have "accounted e (iterations_per_cycle d) (map_iter e d j ?t1)"
    using 2 free by (intro accounted_map_iter accounted_keep_running) auto
  moreover have "\<forall>k<Suc j. memory_regions (map_iter e d j ?t1) ! k \<noteq> Junk"
    using pre len 2(2) by (auto simp: map_iter_fields nth_list_update less_Suc_eq)
  moreover have "\<forall>k. Suc j \<le> k \<and> k < iterations_per_cycle d
      \<longrightarrow> region_of (memory_regions (map_iter e d j ?t1) ! k) = []"
    using post by (auto simp: map_iter_fields)
  ultimately show ?case by blast
next
  case (3 j t)
  then show ?case by (auto intro: accounted_keep_running stopped_keep_running)
next
  case (4 j t)
  then show ?case by (auto simp: filled_iff accounted_def)
qed

lemma access_phase_accounted:
  assumes "accounted e (iterations_per_cycle d) s" and "stopped e s \<or> filled s"
  shows "accounted e (iterations_per_cycle d) (access_phase e d s)
       \<and> (stopped e (access_phase e d s) \<or> filled (access_phase e d s))"
  unfolding access_phase_def
proof (rule for_running_rule [where P = "\<lambda>j t. accounted e (iterations_per_cycle d) t \<and> (stopped e t \<or> filled t)"],
    goal_cases)
  case 1
  from assms show ?case by simp
next
  case (2 j t)
  let ?t1 = "snd (keep_running e t)"
  from 2 have "filled ?t1" and len: "length (memory_regions ?t1) = iterations_per_cycle d"
    by (auto simp: accounted_def)
  then obtain p where p: "memory_regions ?t1 ! j = Val p"
    using filled_nth [of ?t1 j] 2(2) by auto
  have "accounted e (iterations_per_cycle d) (access_iter e d j ?t1)"
    using 2 p by (intro accounted_access_iter accounted_keep_running) auto
  moreover have "filled (access_iter e d j ?t1)"
    using \<open>filled ?t1\<close> by (simp add: filled_def access_iter_fields(1) [OF p])
  ultimately show ?case by blast
next
  case (3 j t)
  then show ?case by (auto intro: accounted_keep_running stopped_keep_running)
next
  case (4 j t)
  then show ?case by simp
qed

lemma release_phase_accounted:
  assumes "accounted e (iterations_per_cycle d) s" and "stopped e s \<or> filled s"
  shows "accounted e (iterations_per_cycle d) (release_phase e d s)
       \<and> (stopped e (release_phase e d s) \<or> live (release_phase e d s) = [])"
  unfolding release_phase_def
proof (rule for_running_rule [where P = "\<lambda>j t. accounted e (iterations_per_cycle d) t
      \<and> (stopped e t \<or> filled t \<and> (\<forall>k<j. region_of (memory_regions t ! k) = []))"],
    goal_cases)
  case 1
  from assms show ?case by simp
next
  case (2 j t)
  let ?t1 = "snd (keep_running e t)"
  from 2 have f: "filled ?t1" and a: "accounted e (iterations_per_cycle d) ?t1"
    and pre: "\<forall>k<j. region_of (memory_regions t ! k) = []"
    by (auto intro: accounted_keep_running)
  from accounted_release_iter [OF a 2(2) f] pre
  have "accounted e (iterations_per_cycle d) (release_iter e j ?t1)"
    and "filled (release_iter e j ?t1)"
    and "\<forall>k<Suc j. region_of (memory_regions (release_iter e j ?t1) ! k) = []"
    by (auto simp: less_Suc_eq)
  then show ?case by blast
next
  case (3 j t)
  then show ?case by (auto intro: accounted_keep_running stopped_keep_running)
next
  case (4 j t)
  then show ?case by (auto simp: live_Nil_iff accounted_def)
qed

lemma accounted_usleep: "accounted e n t \<Longrightarrow> accounted e n (usleep us t)"
  by (simp add: accounted_def usleep_def emit_def live_def filled_def)

lemma accounted_time_call: "accounted e n t \<Longrightarrow> accounted e n (snd (time_call e t))"
  by (simp add: accounted_def time_call_def emit_def live_def filled_def)

lemma cycle_accounted:
  assumes "accounted e (iterations_per_cycle d) s" and "stopped e s \<or> live s = []"
  shows "accounted e (iterations_per_cycle d) (cycle e d s)
       \<and> (stopped e (cycle e d s) \<or> live (cycle e d s) = [])"
proof -
  note m = map_phase_accounted [OF assms]
  note a = access_phase_accounted [OF m [THEN conjunct1] m [THEN conjunct2]]
  note r = release_phase_accounted [OF a [THEN conjunct1] a [THEN conjunct2]]
  from r show ?thesis
    by (auto simp: cycle_def accounted_usleep)
qed

lemma cycles_accounted:
  assumes "accounted e (iterations_per_cycle d) s" and "stopped e s \<or> live s = []"
  shows "accounted e (iterations_per_cycle d) (cycles e d st s)
       \<and> (stopped e (cycles e d st s) \<or> live (cycles e d st s) = [])"
proof (rule cycles_rule [where P = "\<lambda>t. accounted e (iterations_per_cycle d) t \<and> (stopped e t \<or> live t = [])"],
    goal_cases)
  case 1
  from assms show ?case by simp
next
  case (2 t)
  then show ?case by (auto intro: accounted_keep_running stopped_keep_running)
next
  case (3 t)
  then show ?case by (auto intro: accounted_keep_running accounted_time_call)
next
  case (4 t)
  then show ?case by (intro cycle_accounted) (auto intro: accounted_keep_running accounted_time_call)
qed

subsection \<open>The final loop and the whole worker\<close>

lemma cleanup_iter_Junk_trace:
  "memory_regions t ! i = Junk \<Longrightarrow>
     trace (cleanup_iter e i t) = trace t @ Iter CleanupLoop i # UninitRead CleanupLoop i #
        (case junk e i of MAP_FAILED \<Rightarrow> [] | Addr g \<Rightarrow> [MunmapCall CleanupLoop i g (munmap_ok e (munmap_calls t))])"
  by (auto simp: cleanup_iter_def read_slot_def munmap_def emit_def split: ptr.splits)

lemma cleaning_start:
  "(\<forall>k. munmap_ok e k) \<longrightarrow> mapped s0 \<subseteq> set (live s0) \<Longrightarrow> cleaning e s0 0 s0"
  by (simp add: cleaning_def live_def)

lemma cleaning_step:
  assumes "cleaning e s0 i t" and "i < length (memory_regions s0)"
  shows "cleaning e s0 (Suc i) (cleanup_iter e i t)"
proof -
  from assms(1) have regs: "memory_regions t = memory_regions s0" by (simp add: cleaning_def)
  from assms(1) obtain tc where tc: "trace t = trace s0 @ tc"
    and c: "maps_ok tc = 0" "releases_ok tc = 0" "released tc = []" "merges tc = []"
      "filter is_release_failed tc = []" "filter is_munmap_log tc = []"
    and fl: "filled s0 \<longrightarrow> cleaned tc = concat (map region_of (take i (memory_regions s0)))
                          \<and> filter is_uninit_read tc = []"
    and jk: "(\<exists>k<i. memory_regions s0 ! k = Junk) \<longrightarrow> filter is_uninit_read tc \<noteq> []"
    and ok: "(\<forall>k. munmap_ok e k) \<longrightarrow> munmaps_ok tc = length (cleaned tc)"
    unfolding cleaning_def by blast
  from assms(1) have mp: "(\<forall>k. munmap_ok e k) \<longrightarrow> mapped t \<subseteq> set (concat (map region_of (drop i (memory_regions s0))))"
    by (simp add: cleaning_def)
  have tk: "take (Suc i) (memory_regions s0) = take i (memory_regions s0) @ [memory_regions s0 ! i]"
    using assms(2) by (simp add: take_Suc_conv_app_nth)
  have dr: "drop i (memory_regions s0) = memory_regions s0 ! i # drop (Suc i) (memory_regions s0)"
    using assms(2) by (simp add: Cons_nth_drop_Suc)
  show ?thesis
  proof (cases "memory_regions s0 ! i")
    case Junk
    then have nf: "\<not> filled s0"
      using assms(2) by (auto simp: filled_iff)
    let ?tj = "case junk e i of MAP_FAILED \<Rightarrow> []
        | Addr g \<Rightarrow> [MunmapCall CleanupLoop i g (munmap_ok e (munmap_calls t))]"
    have tr: "trace (cleanup_iter e i t) = trace s0 @ (tc @ Iter CleanupLoop i # UninitRead CleanupLoop i # ?tj)"
      using Junk regs tc by (simp add: cleanup_iter_Junk_trace)
    have sub: "mapped (cleanup_iter e i t) \<subseteq> mapped t"
      using cleanup_iter_Junk [of t i e] Junk regs by auto
    have "(\<forall>k. munmap_ok e k) \<longrightarrow> mapped (cleanup_iter e i t) \<subseteq> set (concat (map region_of (drop (Suc i) (memory_regions s0))))"
      using mp sub dr Junk by auto
    moreover have "\<exists>tc'. trace (cleanup_iter e i t) = trace s0 @ tc'
         \<and> maps_ok tc' = 0 \<and> releases_ok tc' = 0 \<and> released tc' = [] \<and> merges tc' = []
         \<and> filter is_release_failed tc' = [] \<and> filter is_munmap_log tc' = []
         \<and> (filled s0 \<longrightarrow> cleaned tc' = concat (map region_of (take (Suc i) (memory_regions s0)))
                          \<and> filter is_uninit_read tc' = [])
         \<and> ((\<exists>k<Suc i. memory_regions s0 ! k = Junk) \<longrightarrow> filter is_uninit_read tc' \<noteq> [])
         \<and> ((\<forall>k. munmap_ok e k) \<longrightarrow> munmaps_ok tc' = length (cleaned tc'))"
      using tr c nf ok by (intro exI [of _ "tc @ Iter CleanupLoop i # UninitRead CleanupLoop i # ?tj"])
        (auto split: ptr.splits)
    ultimately show ?thesis
      using regs assms(1) by (simp add: cleaning_def cleanup_iter_fields)
  next
    case (Val p)
    show ?thesis
    proof (cases p)
      case MAP_FAILED
      with Val regs have eq: "cleanup_iter e i t = t\<lparr>trace := trace t @ [Iter CleanupLoop i]\<rparr>"
        by (simp add: cleanup_iter_Val)
      have "\<exists>tc'. trace (cleanup_iter e i t) = trace s0 @ tc'
         \<and> maps_ok tc' = 0 \<and> releases_ok tc' = 0 \<and> released tc' = [] \<and> merges tc' = []
         \<and> filter is_release_failed tc' = [] \<and> filter is_munmap_log tc' = []
         \<and> (filled s0 \<longrightarrow> cleaned tc' = concat (map region_of (take (Suc i) (memory_regions s0)))
                          \<and> filter is_uninit_read tc' = [])
         \<and> ((\<exists>k<Suc i. memory_regions s0 ! k = Junk) \<longrightarrow> filter is_uninit_read tc' \<noteq> [])
         \<and> ((\<forall>k. munmap_ok e k) \<longrightarrow> munmaps_ok tc' = length (cleaned tc'))"
        using eq tc c fl jk ok tk Val MAP_FAILED
        by (intro exI [of _ "tc @ [Iter CleanupLoop i]"]) (auto simp: less_Suc_eq)
      moreover have "(\<forall>k. munmap_ok e k) \<longrightarrow> mapped (cleanup_iter e i t) \<subseteq> set (concat (map region_of (drop (Suc i) (memory_regions s0))))"
        using mp dr Val MAP_FAILED eq by auto
      ultimately show ?thesis
        using regs assms(1) by (simp add: cleaning_def cleanup_iter_fields)
    next
      case (Addr r)
      with Val regs have tr: "trace (cleanup_iter e i t) = trace t @ [Iter CleanupLoop i, MunmapCall CleanupLoop i r (munmap_ok e (munmap_calls t))]"
        and mp': "mapped (cleanup_iter e i t) = (if munmap_ok e (munmap_calls t) then mapped t - {r} else mapped t)"
        by (simp_all add: cleanup_iter_Val)
      have "\<exists>tc'. trace (cleanup_iter e i t) = trace s0 @ tc'
         \<and> maps_ok tc' = 0 \<and> releases_ok tc' = 0 \<and> released tc' = [] \<and> merges tc' = []
         \<and> filter is_release_failed tc' = [] \<and> filter is_munmap_log tc' = []
         \<and> (filled s0 \<longrightarrow> cleaned tc' = concat (map region_of (take (Suc i) (memory_regions s0)))
                          \<and> filter is_uninit_read tc' = [])
         \<and> ((\<exists>k<Suc i. memory_regions s0 ! k = Junk) \<longrightarrow> filter is_uninit_read tc' \<noteq> [])
         \<and> ((\<forall>k. munmap_ok e k) \<longrightarrow> munmaps_ok tc' = length (cleaned tc'))"
        using tr tc c fl jk ok tk Val Addr
        by (intro exI [of _ "tc @ [Iter CleanupLoop i, MunmapCall CleanupLoop i r (munmap_ok e (munmap_calls t))]"])
          (auto simp: less_Suc_eq)
      moreover have "(\<forall>k. munmap_ok e k) \<longrightarrow> mapped (cleanup_iter e i t) \<subseteq> set (concat (map region_of (drop (Suc i) (memory_regions s0))))"
        using mp dr Val Addr mp' by auto
      ultimately show ?thesis
        using regs assms(1) by (simp add: cleaning_def cleanup_iter_fields)
    qed
  qed
qed

lemma cleanup_cleaning:
  assumes "accounted e (iterations_per_cycle d) s0"
  shows "cleaning e s0 (iterations_per_cycle d) (cleanup e d s0)"
  unfolding cleanup_def
proof (rule fold_upt_rule [where P = "cleaning e s0"], goal_cases)
  case 1
  from assms show ?case by (intro cleaning_start) (simp add: accounted_def)
next
  case (2 i t)
  with assms show ?case by (intro cleaning_step) (simp_all add: accounted_def)
qed

lemma run_cycles_accounted:
  "accounted e (iterations_per_cycle d) (run_cycles e d)"
proof -
  let ?s1 = "(snd (time_call e (init_wstate\<lparr>memory_regions := replicate (iterations_per_cycle d) Junk\<rparr>)))
      \<lparr>thread_tlb_flushes := 0\<rparr>"
  have "concat (map region_of (replicate n Junk)) = []" for n
    by (induction n) simp_all
  then have "accounted e (iterations_per_cycle d) ?s1" and "live ?s1 = []"
    by (simp_all add: accounted_def time_call_def emit_def init_wstate_def live_def)
  from cycles_accounted [OF this(1) disjI2 [OF this(2)],
      of "fst (time_call e (init_wstate\<lparr>memory_regions := replicate (iterations_per_cycle d) Junk\<rparr>))"]
  show ?thesis
    by (simp add: run_cycles_def case_prod_beta)
qed


lemma worker_summary:
  assumes "malloc_ok e"
  shows "\<exists>s0 tc. accounted e (iterations_per_cycle d) s0
    \<and> trace (tlb_flush_worker e d) = trace s0 @ tc @ [Merge (thread_tlb_flushes s0)]
    \<and> thread_tlb_flushes (tlb_flush_worker e d) = thread_tlb_flushes s0
    \<and> maps_ok tc = 0 \<and> releases_ok tc = 0 \<and> released tc = [] \<and> merges tc = []
    \<and> filter is_release_failed tc = [] \<and> filter is_munmap_log tc = []
    \<and> (filled s0 \<longrightarrow> cleaned tc = live s0 \<and> filter is_uninit_read tc = [])
    \<and> (\<not> filled s0 \<longrightarrow> filter is_uninit_read tc \<noteq> [])
    \<and> ((\<forall>k. munmap_ok e k) \<longrightarrow> munmaps_ok tc = length (cleaned tc) \<and> mapped (tlb_flush_worker e d) = {})"
proof -
  let ?s0 = "run_cycles e d"
  let ?n = "iterations_per_cycle d"
  have a: "accounted e ?n ?s0" by (rule run_cycles_accounted)
  then have len: "length (memory_regions ?s0) = ?n" by (simp add: accounted_def)
  from cleanup_cleaning [OF a] obtain tc where
    tr: "trace (cleanup e d ?s0) = trace ?s0 @ tc"
    and fl: "thread_tlb_flushes (cleanup e d ?s0) = thread_tlb_flushes ?s0"
    and c: "maps_ok tc = 0" "releases_ok tc = 0" "released tc = []" "merges tc = []"
      "filter is_release_failed tc = []" "filter is_munmap_log tc = []"
    and f: "filled ?s0 \<longrightarrow> cleaned tc = concat (map region_of (take ?n (memory_regions ?s0)))
                          \<and> filter is_uninit_read tc = []"
    and j: "(\<exists>k<?n. memory_regions ?s0 ! k = Junk) \<longrightarrow> filter is_uninit_read tc \<noteq> []"
    and ok: "(\<forall>k. munmap_ok e k) \<longrightarrow> munmaps_ok tc = length (cleaned tc)"
    and mp: "(\<forall>k. munmap_ok e k) \<longrightarrow> mapped (cleanup e d ?s0) \<subseteq> set (concat (map region_of (drop ?n (memory_regions ?s0))))"
    unfolding cleaning_def by blast
  have w: "tlb_flush_worker e d = merge_counter (cleanup e d ?s0)"
    using assms by (simp add: tlb_flush_worker_def)
  have "trace (tlb_flush_worker e d) = trace ?s0 @ tc @ [Merge (thread_tlb_flushes ?s0)]"
    using tr fl by (simp add: w merge_counter_def emit_def)
  moreover have "thread_tlb_flushes (tlb_flush_worker e d) = thread_tlb_flushes ?s0"
    using fl by (simp add: w merge_counter_def emit_def)
  moreover have "filled ?s0 \<longrightarrow> cleaned tc = live ?s0 \<and> filter is_uninit_read tc = []"
    using f len by (simp add: live_def)
  moreover have "\<not> filled ?s0 \<longrightarrow> filter is_uninit_read tc \<noteq> []"
    using j len by (auto simp: filled_iff)
  moreover have "(\<forall>k. munmap_ok e k) \<longrightarrow> munmaps_ok tc = length (cleaned tc) \<and> mapped (tlb_flush_worker e d) = {}"
    using ok mp len by (simp add: w merge_counter_def emit_def)
  ultimately show ?thesis using a c by blast
qed

lemma worker_alloc_failed:
  "\<not> malloc_ok e \<Longrightarrow> tlb_flush_worker e d = init_wstate\<lparr>trace := [Stderr AllocFailed]\<rparr>"
  by (simp add: tlb_flush_worker_def emit_def init_wstate_def)

lemma sum_merges_worker: "sum_list (merges (trace (tlb_flush_worker e d))) = thread_tlb_flushes (tlb_flush_worker e d)"
proof (cases "malloc_ok e")
  case False
  then show ?thesis by (simp add: worker_alloc_failed init_wstate_def)
next
  case True
  then obtain s0 tc where a: "accounted e (iterations_per_cycle d) s0"
    and tr: "trace (tlb_flush_worker e d) = trace s0 @ tc @ [Merge (thread_tlb_flushes s0)]"
    and fl: "thread_tlb_flushes (tlb_flush_worker e d) = thread_tlb_flushes s0"
    and c: "maps_ok tc = 0" "releases_ok tc = 0" "released tc = []" "merges tc = []"
      "filter is_release_failed tc = []" "filter is_munmap_log tc = []"
    and f: "filled s0 \<longrightarrow> cleaned tc = live s0 \<and> filter is_uninit_read tc = []"
    and nf: "\<not> filled s0 \<longrightarrow> filter is_uninit_read tc \<noteq> []"
    and ok: "(\<forall>k. munmap_ok e k) \<longrightarrow> munmaps_ok tc = length (cleaned tc) \<and> mapped (tlb_flush_worker e d) = {}"
    using worker_summary [of e d] by blast
  from a have "merges (trace s0) = []" by (simp add: accounted_def)
  with tr fl c show ?thesis by simp
qed

text \<open>
  What the release loop and the final loop do to each other. After a pass of the
  release loop over slot \<open>i\<close> the slot reads as \<open>MAP_FAILED\<close>, whether \<open>munmap\<close> succeeded or
  failed. In every run the release phase passes no region to \<open>munmap\<close> twice, and the
  final loop passes to \<open>munmap\<close> no region that the release phase has passed to it. When
  the final loop read only slots that had been written, all regions passed to \<open>munmap\<close>
  in the run are different.
\<close>

lemma released_slots_are_emptied:
  "(i < length (memory_regions s) \<longrightarrow> fst (read_slot e ph i (release_iter e i s)) = MAP_FAILED)
   \<and> distinct (released (trace (tlb_flush_worker e d)))
   \<and> set (released (trace (tlb_flush_worker e d))) \<inter> set (cleaned (trace (tlb_flush_worker e d))) = {}
   \<and> (filter is_uninit_read (trace (tlb_flush_worker e d)) = [] \<longrightarrow>
        distinct (released (trace (tlb_flush_worker e d)) @ cleaned (trace (tlb_flush_worker e d))))"
proof -
  have slot: "fst (read_slot e ph i (release_iter e i s)) = MAP_FAILED" if "i < length (memory_regions s)"
    using that
    by (cases "memory_regions s ! i")
      (auto simp: release_iter_def read_slot_def munmap_def emit_def split: ptr.splits)
  have run: "distinct (released (trace (tlb_flush_worker e d)))
   \<and> set (released (trace (tlb_flush_worker e d))) \<inter> set (cleaned (trace (tlb_flush_worker e d))) = {}
   \<and> (filter is_uninit_read (trace (tlb_flush_worker e d)) = [] \<longrightarrow>
        distinct (released (trace (tlb_flush_worker e d)) @ cleaned (trace (tlb_flush_worker e d))))"
  proof (cases "malloc_ok e")
    case False
    then show ?thesis by (simp add: worker_alloc_failed init_wstate_def)
  next
    case True
    then obtain s0 tc where a: "accounted e (iterations_per_cycle d) s0"
      and tr: "trace (tlb_flush_worker e d) = trace s0 @ tc @ [Merge (thread_tlb_flushes s0)]"
      and c: "released tc = []"
      and f: "filled s0 \<longrightarrow> cleaned tc = live s0 \<and> filter is_uninit_read tc = []"
      and nf: "\<not> filled s0 \<longrightarrow> filter is_uninit_read tc \<noteq> []"
      using worker_summary [of e d] by blast
    from a have d: "distinct (released (trace s0) @ live s0)" and cl: "cleaned (trace s0) = []"
      and rf: "released (trace s0) = [] \<or> filled s0"
      by (simp_all add: accounted_def)
    show ?thesis
    proof (cases "filled s0")
      case True
      with f d cl c tr show ?thesis by auto
    next
      case False
      with rf nf c tr show ?thesis by auto
    qed
  qed
  from slot run show ?thesis by blast
qed

subsection \<open>Concrete runs of the worker\<close>

lemma one_cycle_run:
  "trace (tlb_flush_worker one_cycle one_slot) =
     [TimeRead 0, FlagRead True, TimeRead 0,
      FlagRead True, Iter MapPhase 0, MmapCall 0 (Addr 0),
      FlagRead True, Iter AccessPhase 0, PageRead 0 0 0, PageWrite 0 0 1,
      FlagRead True, Iter ReleasePhase 0, MunmapCall ReleasePhase 0 0 True,
      Usleep 1000, FlagRead True, TimeRead 1, Iter CleanupLoop 0, Merge 1]"
  "thread_tlb_flushes (tlb_flush_worker one_cycle one_slot) = 1"
  "mapped (tlb_flush_worker one_cycle one_slot) = {}"
  by (simp_all add: one_cycle_def one_slot_def worker_eval)


lemma cleanup_fails_run:
  "trace (tlb_flush_worker cleanup_fails one_slot) =
     [TimeRead 0, FlagRead True, TimeRead 0,
      FlagRead True, Iter MapPhase 0, MmapCall 0 (Addr 0),
      FlagRead False, FlagRead False, Usleep 1000, FlagRead False,
      Iter CleanupLoop 0, MunmapCall CleanupLoop 0 0 False, Merge 0]"
  "mapped (tlb_flush_worker cleanup_fails one_slot) = {0}"
  by (simp_all add: cleanup_fails_def one_cycle_def one_slot_def worker_eval)

subsection \<open>The watcher\<close>

lemma watching_snoc [simp]: "watching dur (tr @ [ev]) = watch_step dur (watching dur tr) ev"
  by (simp add: watching_def)

lemma watching_append: "watching dur (tr @ tr') = foldl (watch_step dur) (watching dur tr) tr'"
  by (simp add: watching_def)

lemma sleeps_simps [simp]:
  "sleeps [] = 0"
  "sleeps (tr @ tr') = sleeps tr + sleeps tr'"
  "sleeps (ev # tr) = (if is_sleep ev then Suc (sleeps tr) else sleeps tr)"
  by (simp_all add: sleeps_def)

lemma watch_step_plain:
  "is_plain ev \<Longrightarrow> watch_step dur w ev = w\<lparr>polled := False\<rparr>"
  by (cases ev) simp_all

lemma foldl_watch_plain:
  "list_all is_plain tr \<Longrightarrow> \<exists>p. foldl (watch_step dur) w tr = w\<lparr>polled := p\<rparr> \<and> sleeps tr = 0"
proof (induction tr arbitrary: w)
  case Nil
  have "w = w\<lparr>polled := polled w\<rparr>" by simp
  then show ?case by (metis foldl_Nil sleeps_simps(1))
next
  case (Cons ev tr)
  then have ev: "watch_step dur w ev = w\<lparr>polled := False\<rparr>" and "\<not> is_sleep ev"
    by (cases ev; simp)+
  from Cons obtain p where "foldl (watch_step dur) (w\<lparr>polled := False\<rparr>) tr = w\<lparr>polled := False\<rparr>\<lparr>polled := p\<rparr>"
    and "sleeps tr = 0"
    by fastforce
  with ev \<open>\<not> is_sleep ev\<close> have "foldl (watch_step dur) w (ev # tr) = w\<lparr>polled := p\<rparr> \<and> sleeps (ev # tr) = 0"
    by simp
  then show ?case by blast
qed

lemma page_events_plain: "list_all is_page_event tp \<Longrightarrow> list_all is_plain tp"
proof (induction tp)
  case Nil
  then show ?case by simp
next
  case (Cons ev tp)
  then show ?case by (cases ev) simp_all
qed

lemma map_iter_shape:
  "\<exists>rest. trace (map_iter e d j t) = trace t @ Iter MapPhase j # rest \<and> list_all is_plain rest"
  by (simp add: map_iter_fields)

lemma access_iter_shape:
  "\<exists>rest. trace (access_iter e d j t) = trace t @ Iter AccessPhase j # rest \<and> list_all is_plain rest"
proof -
  obtain p s1 where r: "read_slot e AccessPhase j (emit (Iter AccessPhase j) t) = (p, s1)"
    by (cases "read_slot e AccessPhase j (emit (Iter AccessPhase j) t)")
  then have "\<exists>r1. trace s1 = trace t @ Iter AccessPhase j # r1 \<and> list_all is_plain r1"
    by (auto simp: read_slot_def emit_def split: slot.splits)
  then obtain r1 where r1: "trace s1 = trace t @ Iter AccessPhase j # r1" and p1: "list_all is_plain r1"
    by blast
  show ?thesis
  proof (cases p)
    case MAP_FAILED
    with r r1 p1 show ?thesis by (simp add: access_iter_def)
  next
    case (Addr g)
    obtain m tp where "access_pages (pages_per_thread d) g j 0 s1 = s1\<lparr>mem := m, trace := trace s1 @ tp\<rparr>"
      and "list_all is_page_event tp"
      using access_pages_only_mem by blast
    with Addr r r1 p1 have "trace (access_iter e d j t) = trace t @ Iter AccessPhase j # (r1 @ tp)
        \<and> list_all is_plain (r1 @ tp)"
      by (simp add: access_iter_def page_events_plain)
    then show ?thesis by blast
  qed
qed

lemma release_iter_shape:
  "\<exists>rest. trace (release_iter e j t) = trace t @ Iter ReleasePhase j # rest \<and> list_all is_plain rest"
  by (auto simp: release_iter_def read_slot_def munmap_def emit_def split: slot.splits ptr.splits)

lemma flag_reads_map_iter: "flag_reads (map_iter e d j t) = flag_reads t"
  by (simp add: map_iter_fields)

lemma flag_reads_access_iter: "flag_reads (access_iter e d j t) = flag_reads t"
proof -
  obtain p s1 where r: "read_slot e AccessPhase j (emit (Iter AccessPhase j) t) = (p, s1)"
    by (cases "read_slot e AccessPhase j (emit (Iter AccessPhase j) t)")
  then have s1: "flag_reads s1 = flag_reads t"
    by (auto simp: read_slot_def emit_def split: slot.splits)
  show ?thesis
  proof (cases p)
    case MAP_FAILED
    with r s1 show ?thesis by (simp add: access_iter_def)
  next
    case (Addr g)
    obtain m tp where "access_pages (pages_per_thread d) g j 0 s1 = s1\<lparr>mem := m, trace := trace s1 @ tp\<rparr>"
      using access_pages_only_mem by blast
    with Addr r s1 show ?thesis by (simp add: access_iter_def)
  qed
qed

lemma flag_reads_release_iter: "flag_reads (release_iter e j t) = flag_reads t"
  by (auto simp: release_iter_def read_slot_def munmap_def emit_def split: slot.splits ptr.splits)

lemma in_time_update [simp]:
  "in_time dur (w\<lparr>polled := p\<rparr>) = in_time dur w"
  "in_time dur (w\<lparr>cleared := c\<rparr>) = in_time dur w"
  "in_time dur (w\<lparr>broken := b\<rparr>) = in_time dur w"
  by (simp_all add: in_time_def split: option.splits)

lemma for_running_watched:
  assumes shape: "\<And>j t. \<exists>rest. trace (body j t) = trace t @ Iter ph j # rest \<and> list_all is_plain rest"
    and reads: "\<And>j t. flag_reads (body j t) = flag_reads t"
    and time: "\<And>j t. now (body j t) = now t"
    and "watched e dur st s" and "in_time dur (watching dur (trace s))"
  shows "watched e dur st (for_running e n body 0 s)
       \<and> in_time dur (watching dur (trace (for_running e n body 0 s)))
       \<and> sleeps (trace (for_running e n body 0 s)) = sleeps (trace s)
       \<and> now (for_running e n body 0 s) = now s"
proof (rule for_running_rule [where P = "\<lambda>j t. watched e dur st t \<and> in_time dur (watching dur (trace t))
      \<and> sleeps (trace t) = sleeps (trace s) \<and> now t = now s"], goal_cases)
  case 1
  from assms(4,5) show ?case by simp
next
  case (2 j t)
  let ?t1 = "snd (keep_running e t)"
  let ?w = "watching dur (trace t)"
  from 2 have w: "\<not> broken ?w" "\<not> cleared ?w" "started ?w = Some st" "in_time dur ?w"
    by (auto simp: watched_def)
  obtain rest where rest: "trace (body j ?t1) = trace ?t1 @ Iter ph j # rest" and plain: "list_all is_plain rest"
    using shape by blast
  obtain p where p: "foldl (watch_step dur) (watch_step dur (watching dur (trace ?t1)) (Iter ph j)) rest
      = (watch_step dur (watching dur (trace ?t1)) (Iter ph j))\<lparr>polled := p\<rparr>"
    and sl: "sleeps rest = 0"
    using foldl_watch_plain [OF plain] by blast
  have tr1: "trace ?t1 = trace t @ [FlagRead True]"
    using 2(3) by (simp add: snd_keep_running)
  have t1: "watching dur (trace ?t1) = ?w\<lparr>polled := True\<rparr>"
    using w(2) by (simp add: tr1)
  have "watching dur (trace (body j ?t1))
      = foldl (watch_step dur) (watch_step dur (watching dur (trace ?t1)) (Iter ph j)) rest"
    by (simp add: rest watching_def)
  with p t1 w have wb: "\<not> broken (watching dur (trace (body j ?t1)))"
    "\<not> cleared (watching dur (trace (body j ?t1)))"
    "started (watching dur (trace (body j ?t1))) = Some st"
    "in_time dur (watching dur (trace (body j ?t1)))"
    by simp_all
  moreover have "sleeps (trace (body j ?t1)) = sleeps (trace s)"
    using 2 sl by (simp add: rest tr1)
  moreover have "now (body j ?t1) = now s"
    using 2 by (simp add: time)
  ultimately show ?case by (simp add: watched_def)
next
  case (3 j t)
  then have "stopped e (snd (keep_running e t))" by (intro stopped_keep_running)
  with 3 show ?case
    by (simp add: watched_def snd_keep_running)
next
  case (4 j t)
  then show ?case by simp
qed

lemma trace_usleep: "trace (usleep us t) = trace t @ [Usleep us]"
  by (simp add: usleep_def emit_def)

lemma watched_usleep:
  "watched e dur st t \<Longrightarrow> watched e dur st (usleep us t) \<and> sleeps (trace (usleep us t)) = Suc (sleeps (trace t))"
  by (simp add: watched_def trace_usleep)

lemma cycle_watched:
  assumes "watched e dur st s" and "in_time dur (watching dur (trace s))"
  shows "watched e dur st (cycle e d s) \<and> sleeps (trace (cycle e d s)) = Suc (sleeps (trace s))"
proof -
  note m = for_running_watched [where body = "map_iter e d" and ph = MapPhase and n = "iterations_per_cycle d",
      OF map_iter_shape flag_reads_map_iter now_map_iter assms]
  note a = for_running_watched [where body = "access_iter e d" and ph = AccessPhase and n = "iterations_per_cycle d",
      OF access_iter_shape flag_reads_access_iter now_access_iter m [THEN conjunct1] m [THEN conjunct2, THEN conjunct1]]
  note r = for_running_watched [where body = "release_iter e" and ph = ReleasePhase and n = "iterations_per_cycle d",
      OF release_iter_shape flag_reads_release_iter now_release_iter a [THEN conjunct1] a [THEN conjunct2, THEN conjunct1]]
  let ?r = "for_running e (iterations_per_cycle d) (release_iter e) 0
      (for_running e (iterations_per_cycle d) (access_iter e d) 0
        (for_running e (iterations_per_cycle d) (map_iter e d) 0 s))"
  from r have "watched e dur st ?r" by blast
  from watched_usleep [OF this, of 1000] m a r show ?thesis
    by (simp add: cycle_def map_phase_def access_phase_def release_phase_def)
qed

lemma cycles_watched:
  assumes "watched e (duration_seconds d) (int (n0 div 1000000)) s"
    and "n0 + 1000 * sleeps (trace s) \<le> now s"
    and "sleeps (trace s) \<le> 1000 * nat (duration_seconds d)"
  shows "\<not> broken (watching (duration_seconds d) (trace (cycles e d (int (n0 div 1000000)) s)))
       \<and> sleeps (trace (cycles e d (int (n0 div 1000000)) s)) \<le> 1000 * nat (duration_seconds d)"
proof (rule cycles_rule [where P = "\<lambda>t. watched e (duration_seconds d) (int (n0 div 1000000)) t
      \<and> n0 + 1000 * sleeps (trace t) \<le> now t \<and> sleeps (trace t) \<le> 1000 * nat (duration_seconds d)"],
    goal_cases)
  case 1
  from assms show ?case by simp
next
  case (2 t)
  then show ?case by (simp add: watched_def snd_keep_running)
next
  case (3 t)
  then show ?case
    by (simp add: watched_def snd_keep_running time_call_def emit_def watching_append)
next
  case (4 t)
  let ?t1 = "snd (keep_running e t)"
  let ?t2 = "snd (time_call e ?t1)"
  let ?w = "watching (duration_seconds d) (trace t)"
  from 4 have w: "\<not> broken ?w" "\<not> cleared ?w" "started ?w = Some (int (n0 div 1000000))"
    by (auto simp: watched_def)
  have tr2: "trace ?t2 = trace t @ [FlagRead True, TimeRead (fst (time_call e ?t1))]"
    using 4(2) by (simp add: snd_keep_running time_call_def emit_def)
  have sr: "stopped e ?t2 = stopped e ?t1" by simp
  have w2: "watching (duration_seconds d) (trace ?t2)
      = ?w\<lparr>polled := False, latest := Some (fst (time_call e ?t1))\<rparr>"
    using w by (simp add: tr2 watching_append)
  have el: "fst (time_call e ?t1) - int (n0 div 1000000) < duration_seconds d"
    using 4(3) by simp
  have "watched e (duration_seconds d) (int (n0 div 1000000)) ?t2"
    using w by (simp add: watched_def w2)
  moreover have "in_time (duration_seconds d) (watching (duration_seconds d) (trace ?t2))"
    using w el by (simp add: w2 in_time_def)
  ultimately have c: "watched e (duration_seconds d) (int (n0 div 1000000)) (cycle e d ?t2)"
    and s: "sleeps (trace (cycle e d ?t2)) = Suc (sleeps (trace ?t2))"
    using cycle_watched by blast+
  have s2: "sleeps (trace ?t2) = sleeps (trace t)" by (simp add: tr2)
  have n2: "now t \<le> now ?t2" by (simp add: now_time_call)
  have ct: "fst (time_call e ?t1) = int (now ?t2 div 1000000)" by (rule fst_time_call)
  from el ct have "now ?t2 div 1000000 < n0 div 1000000 + nat (duration_seconds d)"
    by linarith
  then have "now ?t2 < (n0 div 1000000 + nat (duration_seconds d)) * 1000000"
    by (simp add: div_less_iff_less_mult)
  moreover have "n0 div 1000000 * 1000000 \<le> n0" by simp
  ultimately have "now ?t2 < n0 + nat (duration_seconds d) * 1000000"
    by (simp add: algebra_simps)
  with 4(1) n2 have "1000 * sleeps (trace t) < nat (duration_seconds d) * 1000000" by linarith
  then have "Suc (sleeps (trace t)) \<le> 1000 * nat (duration_seconds d)" by linarith
  moreover have "n0 + 1000 * Suc (sleeps (trace t)) \<le> now (cycle e d ?t2)"
    using 4(1) n2 by (simp add: now_cycle)
  ultimately show ?case using c s s2 by simp
qed

lemma cleanup_iter_shape: "\<exists>tc. trace (cleanup_iter e i t) = trace t @ tc \<and> list_all is_plain tc"
  by (auto simp: cleanup_iter_def read_slot_def munmap_def emit_def split: slot.splits ptr.splits)

lemma cleanup_shape: "\<exists>tc. trace (cleanup e d s) = trace s @ tc \<and> list_all is_plain tc"
  unfolding cleanup_def
proof (rule fold_upt_rule [where P = "\<lambda>i t. \<exists>tc. trace t = trace s @ tc \<and> list_all is_plain tc"], goal_cases)
  case 1
  show ?case by simp
next
  case (2 i t)
  then obtain tc where tc: "trace t = trace s @ tc" "list_all is_plain tc" by blast
  obtain tc' where "trace (cleanup_iter e i t) = trace t @ tc'" "list_all is_plain tc'"
    using cleanup_iter_shape by blast
  with tc have "trace (cleanup_iter e i t) = trace s @ (tc @ tc') \<and> list_all is_plain (tc @ tc')"
    by simp
  then show ?case by blast
qed

lemma worker_watched:
  "sleeps (trace (tlb_flush_worker e d)) \<le> 1000 * nat (duration_seconds d)
   \<and> obeys (duration_seconds d) (trace (tlb_flush_worker e d))"
proof (cases "malloc_ok e")
  case False
  then show ?thesis
    by (simp add: worker_alloc_failed init_wstate_def obeys_def watching_def watch0_def)
next
  case True
  let ?i = "init_wstate\<lparr>memory_regions := replicate (iterations_per_cycle d) Junk\<rparr>"
  let ?s1 = "(snd (time_call e ?i))\<lparr>thread_tlb_flushes := 0\<rparr>"
  let ?n0 = "lag e 0"
  have st: "fst (time_call e ?i) = int (?n0 div 1000000)"
    by (simp add: time_call_def init_wstate_def)
  have "watched e (duration_seconds d) (int (?n0 div 1000000)) ?s1"
    and "?n0 + 1000 * sleeps (trace ?s1) \<le> now ?s1"
    and "sleeps (trace ?s1) \<le> 1000 * nat (duration_seconds d)"
    by (simp_all add: watched_def time_call_def emit_def init_wstate_def watching_def watch0_def)
  from cycles_watched [OF this]
  have c: "\<not> broken (watching (duration_seconds d) (trace (run_cycles e d)))"
    "sleeps (trace (run_cycles e d)) \<le> 1000 * nat (duration_seconds d)"
    by (simp_all add: run_cycles_def case_prod_beta st)
  obtain tc where tc: "trace (cleanup e d (run_cycles e d)) = trace (run_cycles e d) @ tc"
    and plain: "list_all is_plain tc"
    using cleanup_shape by blast
  have "trace (tlb_flush_worker e d)
      = trace (run_cycles e d) @ (tc @ [Merge (thread_tlb_flushes (cleanup e d (run_cycles e d)))])"
    using True tc by (simp add: tlb_flush_worker_def merge_counter_def emit_def)
  moreover have "list_all is_plain (tc @ [Merge (thread_tlb_flushes (cleanup e d (run_cycles e d)))])"
    using plain by simp
  ultimately obtain tf where tf: "trace (tlb_flush_worker e d) = trace (run_cycles e d) @ tf"
    and pf: "list_all is_plain tf"
    by blast
  obtain p where "foldl (watch_step (duration_seconds d)) (watching (duration_seconds d) (trace (run_cycles e d))) tf
      = (watching (duration_seconds d) (trace (run_cycles e d)))\<lparr>polled := p\<rparr>"
    and "sleeps tf = 0"
    using foldl_watch_plain [OF pf] by blast
  with c tf show ?thesis
    by (simp add: obeys_def watching_append)
qed

lemma broken_sticky: "broken w \<Longrightarrow> broken (foldl (watch_step dur) w tr)"
proof (induction tr arbitrary: w)
  case Nil
  then show ?case by simp
next
  case (Cons ev tr)
  from Cons(2) have "broken (watch_step dur w ev)"
    by (cases ev) (simp_all split: option.splits)
  then show ?case using Cons(1) by simp
qed

lemma times_snoc [simp]: "times (tr @ [ev]) = times tr @ time_of ev" "times [] = []"
  by (simp_all add: times_def)

lemma watching_fields:
  "polled (watching dur a) = (a \<noteq> [] \<and> last a = FlagRead True)"
  "cleared (watching dur a) = (FlagRead False \<in> set a)"
  "started (watching dur a) = (case times a of [] \<Rightarrow> None | t0 # ts \<Rightarrow> Some t0)"
  "latest (watching dur a) = (case times a of [] \<Rightarrow> None | t0 # ts \<Rightarrow> if ts = [] then None else Some (last ts))"
proof (induction a rule: rev_induct)
  case Nil
  show "polled (watching dur []) = ([] \<noteq> [] \<and> last [] = FlagRead True)"
    and "cleared (watching dur []) = (FlagRead False \<in> set [])"
    and "started (watching dur []) = (case times [] of [] \<Rightarrow> None | t0 # ts \<Rightarrow> Some t0)"
    and "latest (watching dur []) = (case times [] of [] \<Rightarrow> None | t0 # ts \<Rightarrow> if ts = [] then None else Some (last ts))"
    by (simp_all add: watching_def watch0_def)
next
  case (snoc ev a)
  show "polled (watching dur (a @ [ev])) = (a @ [ev] \<noteq> [] \<and> last (a @ [ev]) = FlagRead True)"
    by (cases ev) (auto split: option.splits)
  show "cleared (watching dur (a @ [ev])) = (FlagRead False \<in> set (a @ [ev]))"
    using snoc(2) by (cases ev) (auto split: option.splits)
  show "started (watching dur (a @ [ev])) = (case times (a @ [ev]) of [] \<Rightarrow> None | t0 # ts \<Rightarrow> Some t0)"
    using snoc(3) by (cases ev) (auto split: option.splits list.splits)
  show "latest (watching dur (a @ [ev])) =
      (case times (a @ [ev]) of [] \<Rightarrow> None | t0 # ts \<Rightarrow> if ts = [] then None else Some (last ts))"
    using snoc(3,4) by (cases ev) (auto split: option.splits list.splits if_splits)
qed

lemma obeys_prefix: "obeys dur (a @ b) \<Longrightarrow> obeys dur a"
  using broken_sticky [of "watching dur a" dur b] by (auto simp: obeys_def watching_append)

lemma obeys_Iter:
  assumes "obeys dur (a @ Iter ph i # b)" and "ph \<noteq> CleanupLoop"
  shows "a \<noteq> [] \<and> last a = FlagRead True \<and> FlagRead False \<notin> set a
       \<and> (\<exists>t0 ts. times a = t0 # ts \<and> ts \<noteq> [] \<and> last ts - t0 < dur)"
proof -
  have "obeys dur ((a @ [Iter ph i]) @ b)" using assms(1) by simp
  then have "obeys dur (a @ [Iter ph i])" by (rule obeys_prefix)
  with assms(2) have "polled (watching dur a)" and "\<not> cleared (watching dur a)" and "in_time dur (watching dur a)"
    by (auto simp: obeys_def)
  then show ?thesis
    by (auto simp: watching_fields in_time_def split: option.splits list.splits if_splits)
qed

lemma obeys_TimeRead:
  assumes "obeys dur (a @ TimeRead t # b)" and "times a \<noteq> []"
  shows "a \<noteq> [] \<and> last a = FlagRead True"
proof -
  have "obeys dur ((a @ [TimeRead t]) @ b)" using assms(1) by simp
  then have "obeys dur (a @ [TimeRead t])" by (rule obeys_prefix)
  with assms(2) have "polled (watching dur a)"
    by (auto simp: obeys_def watching_fields(3) split: option.splits list.splits)
  then show ?thesis by (simp add: watching_fields)
qed

subsection \<open>The access loop and the course of a run\<close>

lemma filter_skip_three:
  assumes "j mod 4 = 0"
  shows "filter (\<lambda>x. x mod 4 = 0) [Suc j..<pages] = filter (\<lambda>x. x mod 4 = 0) [j + 4..<pages]"
proof (cases "j + 4 \<le> pages")
  case True
  then have "[Suc j..<pages] = [Suc j, j + 2, j + 3] @ [j + 4..<pages]"
    by (simp add: upt_rec [of "Suc j"] upt_rec [of "Suc (Suc j)"] upt_rec [of "Suc (Suc (Suc j))"]
        numeral_Bit0 numeral_Bit1 del: upt_Suc)
  moreover have "Suc j mod 4 \<noteq> 0" "(j + 2) mod 4 \<noteq> 0" "(j + 3) mod 4 \<noteq> 0"
    using assms by presburger+
  ultimately show ?thesis by simp
next
  case False
  then have "\<forall>x \<in> set [Suc j..<pages]. x mod 4 \<noteq> 0"
    using assms by (auto; presburger)
  then have "filter (\<lambda>x. x mod 4 = 0) [Suc j..<pages] = []"
    by (simp add: filter_empty_conv)
  with False show ?thesis by simp
qed

text \<open>
  Within the bounds that \<open>main\<close> checks, the arithmetic of the access loop stays below
  \<open>2 ^ 31\<close>, so the \<open>int\<close> variables of the source behave as the naturals here.
\<close>

lemma access_arithmetic_fits_int:
  "(pages::nat) \<le> 100000 \<Longrightarrow> (i::nat) < 10000 \<Longrightarrow> (j::nat) < pages \<Longrightarrow>
     j * 17 + i * 13 < 2 ^ 31 \<and> (j * 17 + i * 13) mod pages * 4096 < 2 ^ 31"
proof -
  assume a: "(pages::nat) \<le> 100000" "(i::nat) < 10000" "(j::nat) < pages"
  then have "(j * 17 + i * 13) mod pages < pages" by simp
  with a have "(j * 17 + i * 13) mod pages < 524288" by linarith
  with a show ?thesis by simp
qed

lemma course_of_snoc [simp]: "course_of n pages (tr @ [ev]) = advance n pages (course_of n pages tr) ev"
  by (simp add: course_of_def)

lemma course_of_append: "course_of n pages (tr @ tr') = foldl (advance n pages) (course_of n pages tr) tr'"
  by (simp add: course_of_def)

lemma course_of_Nil [simp]: "course_of n pages [] = course0"
  by (simp add: course_of_def)

lemma held_snoc [simp]: "held (tr @ [ev]) = store (held tr) ev" "held [] = (\<lambda>_. None)"
  by (simp_all add: held_def)

lemma slots_advance [simp]: "slots (advance n pages c ev) = store (slots c) ev"
  by (simp add: advance_def)

lemma slots_course: "slots (course_of n pages tr) = held tr"
  by (induction tr rule: rev_induct) (simp_all add: course0_def)

lemma amiss_react: "amiss c \<Longrightarrow> amiss (react n pages c ev)"
  by (cases ev) (auto simp: wrong_def closing_def split: option.splits list.splits ptr.splits message.splits)

lemma amiss_advance: "amiss c \<Longrightarrow> amiss (advance n pages c ev)"
  by (simp add: advance_def amiss_react)

lemma amiss_foldl: "amiss c \<Longrightarrow> amiss (foldl (advance n pages) c tr)"
  by (induction tr arbitrary: c) (simp_all add: amiss_advance)

lemma amiss_prefix: "\<not> amiss (course_of n pages (a @ b)) \<Longrightarrow> \<not> amiss (course_of n pages a)"
  using amiss_foldl [of "course_of n pages a" n pages b] by (auto simp: course_of_append)

text \<open>Pages are due only inside a pass of the access loop.\<close>

lemma tidy_advance: "tidy c \<Longrightarrow> tidy (advance n pages c ev)"
  by (cases ev)
    (auto simp: tidy_def advance_def wrong_def closing_def
      split: option.splits list.splits ptr.splits message.splits if_splits)

lemma tidy_course: "tidy (course_of n pages tr)"
  by (induction tr rule: rev_induct) (simp_all add: tidy_advance, simp add: tidy_def course0_def)

text \<open>A pass has an index below the number of slots.\<close>

lemma upcoming_bounded: "upcoming n pl = Some (ph, i) \<Longrightarrow> i < n"
  by (cases pl) (auto simp: first_pass_def split: if_splits)

lemma bounded_advance: "bounded n (place c) \<Longrightarrow> bounded n (place (advance n pages c ev))"
  by (cases ev)
    (auto simp: advance_def wrong_def closing_def dest: upcoming_bounded
      split: option.splits list.splits ptr.splits message.splits if_splits)

lemma bounded_course: "bounded n (place (course_of n pages tr))"
  by (induction tr rule: rev_induct) (simp_all add: bounded_advance, simp add: course0_def)

lemma followed_poll:
  assumes "followed n pages t" and "upcoming n (place (course_of n pages (trace t))) = Some (ph, j)"
    and "in_cycle (place (course_of n pages (trace t)))"
  shows "followed n pages (snd (keep_running e t))"
    and "place (course_of n pages (trace (snd (keep_running e t))))
           = (if stopped e t then Cut ph else Polled ph j)"
proof -
  let ?c = "course_of n pages (trace t)"
  from assms(3) have "place ?c \<noteq> Top" by auto
  with assms(1,2) have "react n pages ?c (FlagRead (\<not> stopped e t))
      = ?c\<lparr>place := (if stopped e t then Cut ph else Polled ph j)\<rparr>"
    by (simp add: followed_def)
  then have c: "course_of n pages (trace (snd (keep_running e t)))
      = ?c\<lparr>place := (if stopped e t then Cut ph else Polled ph j)\<rparr>"
    by (simp add: snd_keep_running advance_def)
  from c assms(1) show "followed n pages (snd (keep_running e t))"
    by (simp add: followed_def) (simp add: snd_keep_running)
  from c show "place (course_of n pages (trace (snd (keep_running e t))))
           = (if stopped e t then Cut ph else Polled ph j)"
    by simp
qed

lemma followed_map_iter:
  assumes "followed n pages t" and "place (course_of n pages (trace t)) = Polled MapPhase j" and "j < n"
  shows "followed n pages (map_iter e d j t)"
    and "place (course_of n pages (trace (map_iter e d j t))) = Stored j"
proof -
  let ?c = "course_of n pages (trace t)"
  let ?p = "if mmap_ok e (mmap_calls t) then Addr (mmap_calls t) else MAP_FAILED"
  have c: "course_of n pages (trace (map_iter e d j t))
      = ?c\<lparr>place := Stored j, slots := (slots ?c)(j := Some ?p)\<rparr>"
    using assms(2)
    by (simp add: map_iter_fields(7) course_of_append advance_def)
  then show "place (course_of n pages (trace (map_iter e d j t))) = Stored j"
    by simp
  have "held (trace (map_iter e d j t)) = slots (course_of n pages (trace (map_iter e d j t)))"
    by (simp add: slots_course)
  also have "\<dots> = (slots ?c)(j := Some ?p)" by (subst c) simp
  finally have "held (trace (map_iter e d j t)) = (held (trace t))(j := Some ?p)"
    by (simp add: slots_course)
  with c assms(1,3) show "followed n pages (map_iter e d j t)"
    by (simp add: followed_def map_iter_fields(1) nth_list_update)
qed

lemma visited_from:
  assumes "j mod 4 = 0" and "j < pages"
  shows "filter (\<lambda>x. x mod 4 = 0) [j..<pages] = j # filter (\<lambda>x. x mod 4 = 0) [j + 4..<pages]"
  using assms filter_skip_three [of j pages] by (simp add: upt_rec [of j])

lemma access_pages_course:
  assumes "j mod 4 = 0"
  shows "\<exists>tp. trace (access_pages pages r i j s) = trace s @ tp
     \<and> (\<forall>c rest. got c = None
           \<and> due c = map (\<lambda>j. (r, page_offset pages i j)) (filter (\<lambda>x. x mod 4 = 0) [j..<pages]) @ rest
           \<longrightarrow> foldl (advance n pages) c tp = c\<lparr>due := rest\<rparr>)"
  using assms
proof (induction pages r i j s rule: access_pages.induct)
  case (1 pages r i j s)
  show ?case
  proof (cases "j < pages")
    case False
    then have "trace (access_pages pages r i j s) = trace s @ []"
      by (simp add: access_pages.simps [of pages r i j s])
    moreover have "foldl (advance n pages) c [] = c\<lparr>due := rest\<rparr>"
      if "got c = None \<and> due c = map (\<lambda>j. (r, page_offset pages i j)) (filter (\<lambda>x. x mod 4 = 0) [j..<pages]) @ rest"
      for c :: course and rest
      using that False by simp
    ultimately show ?thesis by blast
  next
    case True
    have "(j + 4) mod 4 = 0" using "1.prems" by presburger
    from "1.IH" [OF True this] obtain tp where
      tp: "trace (access_pages pages r i (j + 4) (access_page pages r i j s)) = trace (access_page pages r i j s) @ tp"
      and f: "\<And>c rest. got c = None
           \<and> due c = map (\<lambda>j. (r, page_offset pages i j)) (filter (\<lambda>x. x mod 4 = 0) [j + 4..<pages]) @ rest
           \<Longrightarrow> foldl (advance n pages) c tp = c\<lparr>due := rest\<rparr>"
      by blast
    let ?k = "page_offset pages i j"
    let ?v = "mem s r ?k"
    have tr: "trace (access_pages pages r i j s) = trace s @ (PageRead r ?k ?v # PageWrite r ?k (?v + 1) # tp)"
      using True tp by (simp add: access_pages.simps [of pages r i j s] access_page_def emit_def page_offset_def)
    have "foldl (advance n pages) c (PageRead r ?k ?v # PageWrite r ?k (?v + 1) # tp) = c\<lparr>due := rest\<rparr>"
      if c: "got c = None \<and> due c = map (\<lambda>j. (r, page_offset pages i j)) (filter (\<lambda>x. x mod 4 = 0) [j..<pages]) @ rest"
      for c :: course and rest
    proof -
      let ?rest = "map (\<lambda>j. (r, page_offset pages i j)) (filter (\<lambda>x. x mod 4 = 0) [j + 4..<pages]) @ rest"
      from c have d: "due c = (r, ?k) # ?rest"
        by (simp add: visited_from [OF "1.prems" True])
      have "advance n pages (advance n pages c (PageRead r ?k ?v)) (PageWrite r ?k (?v + 1)) = c\<lparr>due := ?rest\<rparr>"
        using c d by (simp add: advance_def)
      moreover have "foldl (advance n pages) (c\<lparr>due := ?rest\<rparr>) tp = c\<lparr>due := ?rest\<rparr>\<lparr>due := rest\<rparr>"
        using c by (intro f) simp
      ultimately show ?thesis by simp
    qed
    with tr show ?thesis by blast
  qed
qed

lemma followed_access_iter:
  assumes "followed n (pages_per_thread d) t"
    and "place (course_of n (pages_per_thread d) (trace t)) = Polled AccessPhase j" and "j < n"
    and "memory_regions t ! j = Val p"
  shows "followed n (pages_per_thread d) (access_iter e d j t)"
    and "place (course_of n (pages_per_thread d) (trace (access_iter e d j t))) = Inside AccessPhase j"
proof -
  let ?pages = "pages_per_thread d"
  let ?c = "course_of n ?pages (trace t)"
  from assms(1,3,4) have h: "slots ?c j = Some p"
    by (simp add: followed_def slots_course)
  have "course_of n ?pages (trace (access_iter e d j t)) = ?c\<lparr>place := Inside AccessPhase j\<rparr>"
  proof (cases p)
    case MAP_FAILED
    then have "trace (access_iter e d j t) = trace t @ [Iter AccessPhase j]"
      using assms(4) by (simp add: access_iter_def read_slot_def emit_def)
    with MAP_FAILED h assms(2) show ?thesis
      by (simp add: advance_def)
  next
    case (Addr r)
    let ?s1 = "t\<lparr>trace := trace t @ [Iter AccessPhase j]\<rparr>"
    let ?c1 = "?c\<lparr>place := Inside AccessPhase j, due := map (\<lambda>k. (r, page_offset ?pages j k)) (visited ?pages)\<rparr>"
    have a: "access_iter e d j t = access_pages ?pages r j 0 ?s1"
      using assms(4) Addr by (simp add: access_iter_def read_slot_def emit_def)
    have c1: "course_of n ?pages (trace ?s1) = ?c1"
      using Addr h assms(2) by (simp add: advance_def)
    obtain tp where tp: "trace (access_pages ?pages r j 0 ?s1) = trace ?s1 @ tp"
      and f: "\<And>c rest. got c = None
           \<and> due c = map (\<lambda>k. (r, page_offset ?pages j k)) (filter (\<lambda>x. x mod 4 = 0) [0..<?pages]) @ rest
           \<Longrightarrow> foldl (advance n ?pages) c tp = c\<lparr>due := rest\<rparr>"
      using access_pages_course [of 0 ?pages r j ?s1 n] by auto
    have "foldl (advance n ?pages) ?c1 tp = ?c1\<lparr>due := []\<rparr>"
      using assms(1) by (intro f) (simp add: followed_def visited_def)
    moreover have "?c1\<lparr>due := []\<rparr> = ?c\<lparr>place := Inside AccessPhase j\<rparr>"
      using assms(1) by (simp add: followed_def)
    ultimately show ?thesis
      using c1 by (simp add: a tp course_of_append)
  qed
  then have c: "course_of n ?pages (trace (access_iter e d j t)) = ?c\<lparr>place := Inside AccessPhase j\<rparr>" .
  then show "place (course_of n ?pages (trace (access_iter e d j t))) = Inside AccessPhase j" by simp
  have "held (trace (access_iter e d j t)) = slots (course_of n ?pages (trace (access_iter e d j t)))"
    by (simp add: slots_course)
  also have "\<dots> = slots ?c" by (subst c) simp
  finally have "held (trace (access_iter e d j t)) = held (trace t)"
    by (simp add: slots_course)
  with c assms(1) show "followed n ?pages (access_iter e d j t)"
    by (simp add: followed_def access_iter_fields(1) [OF assms(4)])
qed

lemma followed_release_iter:
  assumes "followed n pages t" and "place (course_of n pages (trace t)) = Polled ReleasePhase j" and "j < n"
    and "memory_regions t ! j = Val p"
  shows "followed n pages (release_iter e j t)"
    and "place (course_of n pages (trace (release_iter e j t))) = Inside ReleasePhase j"
proof -
  let ?c = "course_of n pages (trace t)"
  from assms(1,3,4) have h: "slots ?c j = Some p"
    by (simp add: followed_def slots_course)
  have c: "course_of n pages (trace (release_iter e j t))
      = ?c\<lparr>place := Inside ReleasePhase j, slots := (slots ?c)(j := Some MAP_FAILED)\<rparr>
    \<and> memory_regions (release_iter e j t) = (memory_regions t)[j := Val MAP_FAILED]"
  proof (cases p)
    case MAP_FAILED
    have "(slots ?c)(j := Some MAP_FAILED) = slots ?c"
      using h MAP_FAILED by auto
    moreover have "(memory_regions t)[j := Val MAP_FAILED] = memory_regions t"
      using assms(4) MAP_FAILED by (metis list_update_id)
    ultimately show ?thesis
      using assms(2,4) MAP_FAILED by (simp add: release_iter_empty advance_def)
  next
    case (Addr r)
    note f = release_iter_fields [OF assms(4) [unfolded Addr]]
    from assms(2) h Addr show ?thesis
      by (simp add: f(1,7) course_of_append advance_def)
  qed
  then show "place (course_of n pages (trace (release_iter e j t))) = Inside ReleasePhase j" by simp
  have "held (trace (release_iter e j t)) = slots (course_of n pages (trace (release_iter e j t)))"
    by (simp add: slots_course)
  also have "\<dots> = (slots ?c)(j := Some MAP_FAILED)" by (subst c [THEN conjunct1]) simp
  finally have "held (trace (release_iter e j t)) = (held (trace t))(j := Some MAP_FAILED)"
    by (simp add: slots_course)
  with c assms(1,3) show "followed n pages (release_iter e j t)"
    by (simp add: followed_def nth_list_update)
qed

lemma release_iter_regions:
  "memory_regions t ! j = Val p \<Longrightarrow> memory_regions (release_iter e j t) = (memory_regions t)[j := Val MAP_FAILED]"
proof (cases p)
  case MAP_FAILED
  assume "memory_regions t ! j = Val p"
  with MAP_FAILED show ?thesis by (simp add: release_iter_empty) (metis list_update_id)
next
  case (Addr r)
  assume "memory_regions t ! j = Val p"
  with Addr show ?thesis by (simp add: release_iter_fields(1))
qed

lemma filled_update: "filled t \<Longrightarrow> memory_regions t' = (memory_regions t)[j := Val p] \<Longrightarrow> filled t'"
  by (auto simp: filled_def dest: set_update_subset_insert [THEN subsetD])

lemma at_head_next: "first_pass n (Some ph) = at_head n ph 0"
  by (simp add: first_pass_def at_head_def)

lemma map_phase_followed:
  assumes "followed n pages s" and "place (course_of n pages (trace s)) = Entered"
    and "n = iterations_per_cycle d"
  shows "followed n pages (map_phase e d s)
       \<and> in_cycle (place (course_of n pages (trace (map_phase e d s))))
       \<and> upcoming n (place (course_of n pages (trace (map_phase e d s)))) = at_head n AccessPhase 0
       \<and> (stopped e (map_phase e d s) \<or> filled (map_phase e d s))"
  unfolding map_phase_def assms(3) [symmetric]
proof (rule for_running_rule [where P = "\<lambda>j t. followed n pages t
      \<and> in_cycle (place (course_of n pages (trace t)))
      \<and> upcoming n (place (course_of n pages (trace t))) = at_head n MapPhase j
      \<and> (\<forall>k<j. memory_regions t ! k \<noteq> Junk)"], goal_cases)
  case 1
  from assms(1,2) show ?case by (simp add: at_head_next)
next
  case (2 j t)
  let ?t1 = "snd (keep_running e t)"
  from 2 have up: "upcoming n (place (course_of n pages (trace t))) = Some (MapPhase, j)"
    by (simp add: at_head_def)
  from 2 have f1: "followed n pages ?t1" and p1: "place (course_of n pages (trace ?t1)) = Polled MapPhase j"
    using followed_poll [OF _ up, of e] by simp_all
  note m = followed_map_iter [OF f1 p1 2(2), of e d]
  have "\<forall>k<Suc j. memory_regions (map_iter e d j ?t1) ! k \<noteq> Junk"
    using 2 f1 by (auto simp: map_iter_fields(1) nth_list_update less_Suc_eq followed_def)
  with m 2(2) show ?case by (simp add: at_head_def)
next
  case (3 j t)
  from 3 have up: "upcoming n (place (course_of n pages (trace t))) = Some (MapPhase, j)"
    by (simp add: at_head_def)
  from 3 have "followed n pages (snd (keep_running e t))"
    and "place (course_of n pages (trace (snd (keep_running e t)))) = Cut MapPhase"
    using followed_poll [OF _ up, of e] by simp_all
  with 3 show ?case by (simp add: stopped_keep_running at_head_next [symmetric])
next
  case (4 j t)
  then have "filled t" by (auto simp: filled_iff followed_def)
  with 4 show ?case by (simp add: at_head_def first_pass_def)
qed

lemma access_phase_followed:
  assumes "followed n (pages_per_thread d) s"
    and "in_cycle (place (course_of n (pages_per_thread d) (trace s)))"
    and "upcoming n (place (course_of n (pages_per_thread d) (trace s))) = at_head n AccessPhase 0"
    and "stopped e s \<or> filled s" and "n = iterations_per_cycle d"
  shows "followed n (pages_per_thread d) (access_phase e d s)
       \<and> in_cycle (place (course_of n (pages_per_thread d) (trace (access_phase e d s))))
       \<and> upcoming n (place (course_of n (pages_per_thread d) (trace (access_phase e d s)))) = at_head n ReleasePhase 0
       \<and> (stopped e (access_phase e d s) \<or> filled (access_phase e d s))"
  unfolding access_phase_def assms(5) [symmetric]
proof (rule for_running_rule [where P = "\<lambda>j t. followed n (pages_per_thread d) t
      \<and> in_cycle (place (course_of n (pages_per_thread d) (trace t)))
      \<and> upcoming n (place (course_of n (pages_per_thread d) (trace t))) = at_head n AccessPhase j
      \<and> (stopped e t \<or> filled t)"], goal_cases)
  case 1
  from assms(1-4) show ?case by simp
next
  case (2 j t)
  let ?t1 = "snd (keep_running e t)"
  let ?pages = "pages_per_thread d"
  from 2 have up: "upcoming n (place (course_of n ?pages (trace t))) = Some (AccessPhase, j)"
    by (simp add: at_head_def)
  from 2 have f1: "followed n ?pages ?t1" and p1: "place (course_of n ?pages (trace ?t1)) = Polled AccessPhase j"
    using followed_poll [OF _ up, of e] by simp_all
  from 2 have fl: "filled ?t1" by simp
  then obtain p where p: "memory_regions ?t1 ! j = Val p"
    using filled_nth [of ?t1 j] 2(2) f1 by (auto simp: followed_def)
  note a = followed_access_iter [OF f1 p1 2(2) p, of e]
  have "filled (access_iter e d j ?t1)"
    using fl by (simp add: filled_def access_iter_fields(1) [OF p])
  with a 2(2) show ?case by (simp add: at_head_def)
next
  case (3 j t)
  from 3 have up: "upcoming n (place (course_of n (pages_per_thread d) (trace t))) = Some (AccessPhase, j)"
    by (simp add: at_head_def)
  from 3 have "followed n (pages_per_thread d) (snd (keep_running e t))"
    and "place (course_of n (pages_per_thread d) (trace (snd (keep_running e t)))) = Cut AccessPhase"
    using followed_poll [OF _ up, of e] by simp_all
  with 3 show ?case by (simp add: stopped_keep_running at_head_next [symmetric])
next
  case (4 j t)
  then show ?case by (simp add: at_head_def first_pass_def)
qed

lemma release_phase_followed:
  assumes "followed n pages s"
    and "in_cycle (place (course_of n pages (trace s)))"
    and "upcoming n (place (course_of n pages (trace s))) = at_head n ReleasePhase 0"
    and "stopped e s \<or> filled s" and "n = iterations_per_cycle d"
  shows "followed n pages (release_phase e d s)
       \<and> in_cycle (place (course_of n pages (trace (release_phase e d s))))
       \<and> upcoming n (place (course_of n pages (trace (release_phase e d s)))) = None"
  unfolding release_phase_def assms(5) [symmetric]
proof (rule for_running_rule [where P = "\<lambda>j t. followed n pages t
      \<and> in_cycle (place (course_of n pages (trace t)))
      \<and> upcoming n (place (course_of n pages (trace t))) = at_head n ReleasePhase j
      \<and> (stopped e t \<or> filled t)"], goal_cases)
  case 1
  from assms(1-4) show ?case by simp
next
  case (2 j t)
  let ?t1 = "snd (keep_running e t)"
  from 2 have up: "upcoming n (place (course_of n pages (trace t))) = Some (ReleasePhase, j)"
    by (simp add: at_head_def)
  from 2 have f1: "followed n pages ?t1" and p1: "place (course_of n pages (trace ?t1)) = Polled ReleasePhase j"
    using followed_poll [OF _ up, of e] by simp_all
  from 2 have fl: "filled ?t1" by simp
  then obtain p where p: "memory_regions ?t1 ! j = Val p"
    using filled_nth [of ?t1 j] 2(2) f1 by (auto simp: followed_def)
  note r = followed_release_iter [OF f1 p1 2(2) p, of e]
  have "filled (release_iter e j ?t1)"
    using fl release_iter_regions [OF p, of e] by (rule filled_update)
  with r 2(2) show ?case by (simp add: at_head_def)
next
  case (3 j t)
  from 3 have up: "upcoming n (place (course_of n pages (trace t))) = Some (ReleasePhase, j)"
    by (simp add: at_head_def)
  from 3 have "followed n pages (snd (keep_running e t))"
    and "place (course_of n pages (trace (snd (keep_running e t)))) = Cut ReleasePhase"
    using followed_poll [OF _ up, of e] by simp_all
  then show ?case by (simp add: first_pass_def)
next
  case (4 j t)
  then show ?case by (simp add: at_head_def first_pass_def)
qed

lemma cycle_followed:
  assumes "followed n (pages_per_thread d) s" and "place (course_of n (pages_per_thread d) (trace s)) = Entered"
    and "n = iterations_per_cycle d"
  shows "followed n (pages_per_thread d) (cycle e d s)
       \<and> place (course_of n (pages_per_thread d) (trace (cycle e d s))) = Top"
proof -
  let ?pages = "pages_per_thread d"
  note m = map_phase_followed [OF assms, of e]
  note a = access_phase_followed [OF m [THEN conjunct1] m [THEN conjunct2, THEN conjunct1]
      m [THEN conjunct2, THEN conjunct2, THEN conjunct1] m [THEN conjunct2, THEN conjunct2, THEN conjunct2] assms(3)]
  note r = release_phase_followed [OF a [THEN conjunct1] a [THEN conjunct2, THEN conjunct1]
      a [THEN conjunct2, THEN conjunct2, THEN conjunct1] a [THEN conjunct2, THEN conjunct2, THEN conjunct2] assms(3)]
  let ?r = "release_phase e d (access_phase e d (map_phase e d s))"
  have "course_of n ?pages (trace (usleep 1000 ?r)) = (course_of n ?pages (trace ?r))\<lparr>place := Top\<rparr>"
    using r by (simp add: usleep_def emit_def advance_def followed_def)
  with r show ?thesis
    by (simp add: cycle_def followed_def) (simp add: usleep_def emit_def)
qed

lemma cycles_followed:
  assumes "followed n (pages_per_thread d) s" and "place (course_of n (pages_per_thread d) (trace s)) = Top"
    and "n = iterations_per_cycle d"
  shows "\<not> amiss (course_of n (pages_per_thread d) (trace (cycles e d st s)))
       \<and> (place (course_of n (pages_per_thread d) (trace (cycles e d st s))) = Ended
          \<or> place (course_of n (pages_per_thread d) (trace (cycles e d st s))) = Entered)"
proof (rule cycles_rule [where P = "\<lambda>t. followed n (pages_per_thread d) t
      \<and> place (course_of n (pages_per_thread d) (trace t)) = Top"], goal_cases)
  case 1
  from assms(1,2) show ?case by simp
next
  case (2 t)
  then show ?case
    by (simp add: snd_keep_running advance_def followed_def)
next
  case (3 t)
  then show ?case
    by (simp add: snd_keep_running time_call_def emit_def course_of_append advance_def followed_def)
next
  case (4 t)
  let ?pages = "pages_per_thread d"
  let ?t2 = "snd (time_call e (snd (keep_running e t)))"
  from 4 have c: "course_of n ?pages (trace ?t2) = (course_of n ?pages (trace t))\<lparr>place := Entered\<rparr>"
    by (simp add: snd_keep_running time_call_def emit_def course_of_append advance_def followed_def)
  have "held (trace ?t2) = slots (course_of n ?pages (trace ?t2))"
    by (simp add: slots_course)
  also have "\<dots> = slots (course_of n ?pages (trace t))" by (subst c) simp
  finally have "held (trace ?t2) = held (trace t)" by (simp add: slots_course)
  with 4 c have "followed n ?pages ?t2"
    by (simp add: followed_def) (simp add: snd_keep_running time_call_def emit_def)
  moreover from c have "place (course_of n ?pages (trace ?t2)) = Entered" by simp
  ultimately show ?case using assms(3) by (intro cycle_followed)
qed

lemma advance_closing:
  "is_closing ev \<Longrightarrow> place c = Ended \<or> place c = Entered \<Longrightarrow> advance n pages c ev = c\<lparr>place := Ended\<rparr>"
  by (cases ev) (auto simp: advance_def closing_def)

lemma foldl_closing:
  "list_all is_closing tc \<Longrightarrow> tc \<noteq> [] \<Longrightarrow> place c = Ended \<or> place c = Entered
     \<Longrightarrow> foldl (advance n pages) c tc = c\<lparr>place := Ended\<rparr>"
proof (induction tc arbitrary: c)
  case Nil
  then show ?case by simp
next
  case (Cons ev tc)
  then have a: "advance n pages c ev = c\<lparr>place := Ended\<rparr>"
    by (simp add: advance_closing)
  show ?case
  proof (cases "tc = []")
    case True
    with a show ?thesis by simp
  next
    case False
    with Cons have "foldl (advance n pages) (c\<lparr>place := Ended\<rparr>) tc = c\<lparr>place := Ended\<rparr>\<lparr>place := Ended\<rparr>"
      by (intro Cons.IH) simp_all
    with a show ?thesis by simp
  qed
qed

lemma cleanup_iter_closing: "\<exists>tc. trace (cleanup_iter e i t) = trace t @ tc \<and> list_all is_closing tc"
  by (auto simp: cleanup_iter_def read_slot_def munmap_def emit_def split: slot.splits ptr.splits)

lemma cleanup_closing: "\<exists>tc. trace (cleanup e d s) = trace s @ tc \<and> list_all is_closing tc"
  unfolding cleanup_def
proof (rule fold_upt_rule [where P = "\<lambda>i t. \<exists>tc. trace t = trace s @ tc \<and> list_all is_closing tc"], goal_cases)
  case 1
  show ?case by simp
next
  case (2 i t)
  then obtain tc where tc: "trace t = trace s @ tc" "list_all is_closing tc" by blast
  obtain tc' where "trace (cleanup_iter e i t) = trace t @ tc'" "list_all is_closing tc'"
    using cleanup_iter_closing by blast
  with tc have "trace (cleanup_iter e i t) = trace s @ (tc @ tc') \<and> list_all is_closing (tc @ tc')"
    by simp
  then show ?case by blast
qed

lemma worker_regular:
  "regular (iterations_per_cycle d) (pages_per_thread d) (trace (tlb_flush_worker e d))"
proof (cases "malloc_ok e")
  case False
  then show ?thesis
    by (simp add: worker_alloc_failed init_wstate_def regular_def course_of_def course0_def advance_def)
next
  case True
  let ?n = "iterations_per_cycle d"
  let ?pages = "pages_per_thread d"
  let ?i = "init_wstate\<lparr>memory_regions := replicate ?n Junk\<rparr>"
  let ?s1 = "(snd (time_call e ?i))\<lparr>thread_tlb_flushes := 0\<rparr>"
  have "followed ?n ?pages ?s1" and "place (course_of ?n ?pages (trace ?s1)) = Top"
    by (simp_all add: followed_def time_call_def emit_def init_wstate_def course_of_def course0_def advance_def held_def)
  from cycles_followed [OF this refl]
  have c: "\<not> amiss (course_of ?n ?pages (trace (run_cycles e d)))"
    "place (course_of ?n ?pages (trace (run_cycles e d))) = Ended
      \<or> place (course_of ?n ?pages (trace (run_cycles e d))) = Entered"
    by (simp_all add: run_cycles_def case_prod_beta)
  obtain tc where tc: "trace (cleanup e d (run_cycles e d)) = trace (run_cycles e d) @ tc"
    and cl: "list_all is_closing tc"
    using cleanup_closing by blast
  let ?tf = "tc @ [Merge (thread_tlb_flushes (cleanup e d (run_cycles e d)))]"
  have tf: "trace (tlb_flush_worker e d) = trace (run_cycles e d) @ ?tf"
    using True tc by (simp add: tlb_flush_worker_def merge_counter_def emit_def)
  have "list_all is_closing ?tf" and "?tf \<noteq> []"
    using cl by simp_all
  from foldl_closing [OF this c(2)]
  have "course_of ?n ?pages (trace (tlb_flush_worker e d))
      = (course_of ?n ?pages (trace (run_cycles e d)))\<lparr>place := Ended\<rparr>"
    by (simp only: tf course_of_append)
  with c(1) show ?thesis by (simp add: regular_def)
qed

lemma step_none: "due c = [] \<Longrightarrow> is_page_event ev \<Longrightarrow> amiss (advance n pages c ev)"
  by (cases ev) (simp_all add: advance_def wrong_def)

lemma step_read:
  assumes "place c = Inside AccessPhase i" and "due c = x # ds" and "got c = None"
    and "\<not> amiss (advance n pages c ev)"
  shows "\<exists>v. ev = PageRead (fst x) (snd x) v \<and> advance n pages c ev = c\<lparr>got := Some v\<rparr>"
  using assms
  by (cases ev) (auto simp: advance_def wrong_def closing_def split: if_splits message.splits)

lemma step_write:
  assumes "place c = Inside AccessPhase i" and "due c = x # ds" and "got c = Some v"
    and "\<not> amiss (advance n pages c ev)"
  shows "ev = PageWrite (fst x) (snd x) (v + 1) \<and> advance n pages c ev = c\<lparr>due := ds, got := None\<rparr>"
  using assms
  by (cases ev) (auto simp: advance_def wrong_def closing_def split: if_splits message.splits)

lemma due_pattern:
  assumes "\<not> amiss (foldl (advance n pages) c b)"
    and "due (foldl (advance n pages) c b) = []" and "got (foldl (advance n pages) c b) = None"
    and "place c = Inside AccessPhase i" and "got c = None" and "due c = ds"
  shows "\<exists>vs rest. length vs = length ds
       \<and> b = concat (map2 (\<lambda>x v. [PageRead (fst x) (snd x) v, PageWrite (fst x) (snd x) (v + 1)]) ds vs) @ rest
       \<and> \<not> page_next rest"
  using assms
proof (induction ds arbitrary: c b)
  case Nil
  have "\<not> page_next b"
  proof (cases b)
    case Nil
    then show ?thesis by simp
  next
    case (Cons ev b')
    show ?thesis
    proof
      assume "page_next b"
      with Cons Nil.prems(6) have "amiss (advance n pages c ev)"
        by (simp add: step_none)
      then have "amiss (foldl (advance n pages) c b)"
        using Cons by (simp add: amiss_foldl)
      with Nil.prems(1) show False by simp
    qed
  qed
  then have "length [] = length ([] :: (nat \<times> nat) list)
       \<and> b = concat (map2 (\<lambda>x v. [PageRead (fst x) (snd x) v, PageWrite (fst x) (snd x) (v + 1)]) [] []) @ b
       \<and> \<not> page_next b"
    by simp
  then show ?case by blast
next
  case (Cons x ds)
  from Cons.prems(2,6) obtain ev b1 where b: "b = ev # b1"
    by (cases b) auto
  have n1: "\<not> amiss (advance n pages c ev)"
    using Cons.prems(1) b amiss_foldl [of "advance n pages c ev" n pages b1] by auto
  from step_read [OF Cons.prems(4) Cons.prems(6) [symmetric, THEN sym] Cons.prems(5) n1]
  obtain v where ev: "ev = PageRead (fst x) (snd x) v" and c1: "advance n pages c ev = c\<lparr>got := Some v\<rparr>"
    by blast
  let ?c1 = "c\<lparr>got := Some v\<rparr>"
  from Cons.prems(3) b c1 obtain ev2 b2 where b1: "b1 = ev2 # b2"
    by (cases b1) auto
  have n2: "\<not> amiss (advance n pages ?c1 ev2)"
    using Cons.prems(1) b b1 c1 amiss_foldl [of "advance n pages ?c1 ev2" n pages b2] by auto
  have "place ?c1 = Inside AccessPhase i" and "due ?c1 = x # ds" and "got ?c1 = Some v"
    using Cons.prems(4,6) by simp_all
  from step_write [OF this n2]
  have ev2: "ev2 = PageWrite (fst x) (snd x) (v + 1)" and c2: "advance n pages ?c1 ev2 = ?c1\<lparr>due := ds, got := None\<rparr>"
    by blast+
  let ?c2 = "?c1\<lparr>due := ds, got := None\<rparr>"
  have f: "foldl (advance n pages) c b = foldl (advance n pages) ?c2 b2"
    by (simp add: b b1 c1 c2)
  have "\<not> amiss (foldl (advance n pages) ?c2 b2)" and "due (foldl (advance n pages) ?c2 b2) = []"
    and "got (foldl (advance n pages) ?c2 b2) = None"
    using Cons.prems(1-3) by (simp_all add: f)
  moreover have "place ?c2 = Inside AccessPhase i" and "got ?c2 = None" and "due ?c2 = ds"
    using Cons.prems(4) by simp_all
  ultimately have "\<exists>vs rest. length vs = length ds
       \<and> b2 = concat (map2 (\<lambda>x v. [PageRead (fst x) (snd x) v, PageWrite (fst x) (snd x) (v + 1)]) ds vs) @ rest
       \<and> \<not> page_next rest"
    by (rule Cons.IH)
  then obtain vs rest where "length vs = length ds"
    and "b2 = concat (map2 (\<lambda>x v. [PageRead (fst x) (snd x) v, PageWrite (fst x) (snd x) (v + 1)]) ds vs) @ rest"
    and "\<not> page_next rest"
    by blast
  then have "length (v # vs) = length (x # ds)
       \<and> b = concat (map2 (\<lambda>x v. [PageRead (fst x) (snd x) v, PageWrite (fst x) (snd x) (v + 1)]) (x # ds) (v # vs)) @ rest
       \<and> \<not> page_next rest"
    by (simp add: b b1 ev ev2)
  then show ?case by blast
qed

lemma touches_due:
  "concat (map2 (\<lambda>x v. [PageRead (fst x) (snd x) v, PageWrite (fst x) (snd x) (v + 1)])
      (map (\<lambda>j. (r, page_offset pages i j)) (visited pages)) vs) = touches pages r i vs"
  by (simp add: touches_def zip_map1 case_prod_unfold comp_def)

lemma access_pass_pattern:
  assumes "regular n pages (a @ Iter AccessPhase i # b)"
  shows "(held a i = Some MAP_FAILED \<and> \<not> page_next b)
       \<or> (\<exists>r vs c. held a i = Some (Addr r) \<and> length vs = length (visited pages)
             \<and> b = touches pages r i vs @ c \<and> \<not> page_next c)"
proof -
  let ?ca = "course_of n pages a"
  let ?c1 = "advance n pages ?ca (Iter AccessPhase i)"
  let ?cf = "foldl (advance n pages) ?c1 b"
  have cf: "course_of n pages (a @ Iter AccessPhase i # b) = ?cf"
    by (simp add: course_of_def)
  with assms have nf: "\<not> amiss ?cf" and "place ?cf = Ended"
    by (simp_all add: regular_def)
  with tidy_course [of n pages "a @ Iter AccessPhase i # b"] have df: "due ?cf = []" "got ?cf = None"
    by (auto simp: tidy_def cf)
  from nf have n1: "\<not> amiss ?c1" using amiss_foldl by blast
  then have pl: "place ?ca = Polled AccessPhase i"
    by (auto simp: advance_def wrong_def split: if_splits)
  with tidy_course [of n pages a] have da: "due ?ca = []" "got ?ca = None"
    by (auto simp: tidy_def)
  from n1 pl obtain p where p: "held a i = Some p"
    by (cases "slots ?ca i") (auto simp: advance_def wrong_def slots_course)
  show ?thesis
  proof (cases p)
    case MAP_FAILED
    with p pl da have "place ?c1 = Inside AccessPhase i" "got ?c1 = None" "due ?c1 = []"
      by (simp_all add: advance_def slots_course)
    from due_pattern [OF nf df this] have "\<not> page_next b" by simp
    with p MAP_FAILED show ?thesis by simp
  next
    case (Addr r)
    with p pl da have "place ?c1 = Inside AccessPhase i" "got ?c1 = None"
      "due ?c1 = map (\<lambda>j. (r, page_offset pages i j)) (visited pages)"
      by (simp_all add: advance_def slots_course)
    from due_pattern [OF nf df this] obtain vs rest where "length vs = length (visited pages)"
      and "b = touches pages r i vs @ rest" and "\<not> page_next rest"
      by (auto simp: touches_due)
    with p Addr show ?thesis by blast
  qed
qed

lemma before_step:
  assumes "before n i (place c)" and "i < n" and "\<not> amiss (advance n pages c ev)"
    and "ev \<noteq> Iter AccessPhase i" and "ev \<noteq> FlagRead False"
  shows "before n i (place (advance n pages c ev)) \<and> \<not> is_sleep ev \<and> store h ev i = h i"
proof (cases "place c")
  case (Polled ph k)
  with assms show ?thesis
    by (cases ev) (auto simp: advance_def wrong_def closing_def split: if_splits option.splits ptr.splits list.splits message.splits)
next
  case (Inside ph k)
  with assms show ?thesis
    by (cases ev) (auto simp: advance_def wrong_def closing_def first_pass_def
        split: if_splits option.splits ptr.splits list.splits message.splits)
next
  case (Stored k)
  with assms show ?thesis
    by (cases ev) (auto simp: advance_def wrong_def closing_def first_pass_def
        split: if_splits option.splits ptr.splits list.splits message.splits)
qed (use assms in simp_all)

lemma reaches_access:
  assumes "\<not> amiss (foldl (advance n pages) c b)" and "place (foldl (advance n pages) c b) = Ended"
    and "before n i (place c)" and "i < n"
  shows "\<exists>c1 x c2. b = c1 @ x # c2 \<and> (x = Iter AccessPhase i \<or> x = FlagRead False) \<and> sleeps c1 = 0
           \<and> foldl store h c1 i = h i"
  using assms
proof (induction b arbitrary: c h)
  case Nil
  then show ?case by (cases "place c") simp_all
next
  case (Cons ev b)
  show ?case
  proof (cases "ev = Iter AccessPhase i \<or> ev = FlagRead False")
    case True
    then have "ev # b = [] @ ev # b \<and> (ev = Iter AccessPhase i \<or> ev = FlagRead False) \<and> sleeps [] = 0
        \<and> foldl store h [] i = h i"
      by simp
    then show ?thesis by blast
  next
    case False
    have n1: "\<not> amiss (advance n pages c ev)"
      using Cons.prems(1) amiss_foldl [of "advance n pages c ev" n pages b] by auto
    from before_step [OF Cons.prems(3,4) n1, of h] False
    have bf: "before n i (place (advance n pages c ev))" and ns: "\<not> is_sleep ev" and st: "store h ev i = h i"
      by simp_all
    from Cons.IH [OF _ _ bf Cons.prems(4), of "store h ev"] Cons.prems(1,2)
    obtain c1 x c2 where "b = c1 @ x # c2" and "x = Iter AccessPhase i \<or> x = FlagRead False" and "sleeps c1 = 0"
      and "foldl store (store h ev) c1 i = store h ev i"
      by auto
    with ns st have "ev # b = (ev # c1) @ x # c2 \<and> (x = Iter AccessPhase i \<or> x = FlagRead False)
        \<and> sleeps (ev # c1) = 0 \<and> foldl store h (ev # c1) i = h i"
      by simp
    then show ?thesis by blast
  qed
qed

lemma held_append: "held (a @ b) = foldl store (held a) b"
  by (simp add: held_def)

lemma access_pass_follows:
  assumes "regular n pages (a @ MmapCall i p # b)"
  shows "\<exists>c1 x c2. b = c1 @ x # c2 \<and> (x = Iter AccessPhase i \<or> x = FlagRead False) \<and> sleeps c1 = 0
           \<and> held (a @ MmapCall i p # c1) i = Some p"
proof -
  let ?ca = "course_of n pages a"
  let ?c1 = "advance n pages ?ca (MmapCall i p)"
  let ?cf = "foldl (advance n pages) ?c1 b"
  have cf: "course_of n pages (a @ MmapCall i p # b) = ?cf"
    by (simp add: course_of_def)
  with assms have nf: "\<not> amiss ?cf" and pf: "place ?cf = Ended"
    by (simp_all add: regular_def)
  from nf have n1: "\<not> amiss ?c1" using amiss_foldl by blast
  then have pl: "place ?c1 = Stored i"
    by (auto simp: advance_def wrong_def split: if_splits)
  have "bounded n (place (course_of n pages (a @ [MmapCall i p])))"
    by (rule bounded_course)
  with pl have "i < n" by simp
  with pl have "before n i (place ?c1)" by simp
  from reaches_access [OF nf pf this \<open>i < n\<close>, of "held (a @ [MmapCall i p])"]
  obtain c1 x c2 where "b = c1 @ x # c2" and "x = Iter AccessPhase i \<or> x = FlagRead False" and "sleeps c1 = 0"
    and "foldl store (held (a @ [MmapCall i p])) c1 i = held (a @ [MmapCall i p]) i"
    by blast
  moreover have "held (a @ MmapCall i p # c1) = foldl store (held (a @ [MmapCall i p])) c1"
    using held_append [of "a @ [MmapCall i p]" c1] by simp
  ultimately have "b = c1 @ x # c2 \<and> (x = Iter AccessPhase i \<or> x = FlagRead False) \<and> sleeps c1 = 0
      \<and> held (a @ MmapCall i p # c1) i = Some p"
    by simp
  then show ?thesis by blast
qed

text \<open>What becomes of a region once it is mapped.\<close>

lemma mapped_region_visited:
  assumes "regular n pages (a @ MmapCall i (Addr r) # b)"
  shows "\<exists>c1 c2. sleeps c1 = 0
       \<and> (b = c1 @ FlagRead False # c2
          \<or> (\<exists>vs. length vs = length (visited pages)
                \<and> b = c1 @ Iter AccessPhase i # touches pages r i vs @ c2 \<and> \<not> page_next c2))"
proof -
  from access_pass_follows [OF assms]
  obtain c1 x c2 where b: "b = c1 @ x # c2" and x: "x = Iter AccessPhase i \<or> x = FlagRead False"
    and s: "sleeps c1 = 0" and h: "held (a @ MmapCall i (Addr r) # c1) i = Some (Addr r)"
    by blast
  from x show ?thesis
  proof
    assume "x = FlagRead False"
    with b s show ?thesis by blast
  next
    assume xi: "x = Iter AccessPhase i"
    with assms b have "regular n pages ((a @ MmapCall i (Addr r) # c1) @ Iter AccessPhase i # c2)"
      by simp
    from access_pass_pattern [OF this] h
    obtain vs c where "length vs = length (visited pages)" and "c2 = touches pages r i vs @ c" and "\<not> page_next c"
      by auto
    with b xi s show ?thesis by blast
  qed
qed

lemma two_regions_run:
  "trace (tlb_flush_worker two_regions six_pages) =
     [TimeRead 0, FlagRead True, TimeRead 0,
      FlagRead True, Iter MapPhase 0, MmapCall 0 MAP_FAILED, Stderr (MmapFailed 0),
      FlagRead True, Iter MapPhase 1, MmapCall 1 (Addr 1),
      FlagRead True, Iter AccessPhase 0,
      FlagRead True, Iter AccessPhase 1,
      PageRead 1 1 2, PageWrite 1 1 3, PageRead 1 3 4, PageWrite 1 3 5,
      FlagRead True, Iter ReleasePhase 0,
      FlagRead True, Iter ReleasePhase 1, MunmapCall ReleasePhase 1 1 True,
      Usleep 1000, FlagRead True, TimeRead 1,
      Iter CleanupLoop 0, Iter CleanupLoop 1, Merge 1]"
  by (simp add: two_regions_def six_pages_def worker_eval)

lemma cut_in_access_run:
  "trace (tlb_flush_worker cut_in_access two_slots) =
     [TimeRead 0, FlagRead True, TimeRead 0,
      FlagRead True, Iter MapPhase 0, MmapCall 0 (Addr 0),
      FlagRead True, Iter MapPhase 1, MmapCall 1 (Addr 1),
      FlagRead True, Iter AccessPhase 0, PageRead 0 0 0, PageWrite 0 0 1,
      FlagRead False, FlagRead False, Usleep 1000, FlagRead False,
      Iter CleanupLoop 0, MunmapCall CleanupLoop 0 0 True,
      Iter CleanupLoop 1, MunmapCall CleanupLoop 1 1 True, Merge 0]"
  by (simp add: cut_in_access_def two_slots_def worker_eval)

section \<open>The claims\<close>

text \<open>
  C1. The claim: when \<open>pthread_create\<close> fails, \<open>main\<close> stops creating workers, raises the
  shutdown flag, joins the workers that were started, and the process exits with
  status 1. The code keeps the first two. But its join loop runs over the whole table
  \<open>threads\<close>: when the creation of thread \<open>k\<close> fails, the loop passes to \<open>pthread_join\<close>
  the handles of the workers \<open>0..k-1\<close> and then the slots from \<open>k\<close> on, which were never
  written and whose use is not defined. (Nor is there a \<open>return 1\<close> on this path: behind
  the join loop \<open>main\<close> has the one \<open>return 0\<close>.)
\<close>

theorem join_loop_passes_unwritten_handles:
  "parse_args args defaults = Run c \<and> threads_alloc_ok m \<and> data_alloc_ok m
      \<and> k < nat (num_threads c) \<and> (\<forall>j<k. create_ok m j) \<and> \<not> create_ok m k \<longrightarrow>
        workers (main args m) = map (\<lambda>i. tlb_flush_worker (worker_env m i) (thread_data_of c i)) [0..<k]
      \<and> shutdown_raised (main args m)
      \<and> stderr (main args m) = [CreateFailed k]
      \<and> joined (main args m) = map Thread [0..<k] @ replicate (nat (num_threads c) - k) Unwritten"
proof
  assume a: "parse_args args defaults = Run c \<and> threads_alloc_ok m \<and> data_alloc_ok m
      \<and> k < nat (num_threads c) \<and> (\<forall>j<k. create_ok m j) \<and> \<not> create_ok m k"
  let ?n = "nat (num_threads c)"
  from a have l: "fst (launch m ?n 0 (replicate ?n Unwritten)) = k
      \<and> fst (snd (launch m ?n 0 (replicate ?n Unwritten)))"
    by (intro launch_stops_at_failure) simp_all
  from a have "main args m = run_threads m c"
    by (simp add: main_Run)
  with l show "workers (main args m) = map (\<lambda>i. tlb_flush_worker (worker_env m i) (thread_data_of c i)) [0..<k]
      \<and> shutdown_raised (main args m)
      \<and> stderr (main args m) = [CreateFailed k]
      \<and> joined (main args m) = map Thread [0..<k] @ replicate (nat (num_threads c) - k) Unwritten"
    by (simp add: workers_run_threads shutdown_run_threads stderr_run_threads joined_run_threads)
qed

text \<open>
  The run \<open>-t 2\<close> in which the second \<open>pthread_create\<close> fails: one worker runs, and the
  join loop calls \<open>pthread_join\<close> on its handle and then on slot 1 of the table, which
  nothing was ever stored in.
\<close>

theorem join_loop_passes_unwritten_handles_witness:
  "length (workers (main [Opt_t ''2''] second_create_fails)) = 1
     \<and> shutdown_raised (main [Opt_t ''2''] second_create_fails)
     \<and> stderr (main [Opt_t ''2''] second_create_fails) = [CreateFailed 1]
     \<and> joined (main [Opt_t ''2''] second_create_fails) = [Thread 0, Unwritten]"
proof -
  have "(\<forall>j<1. create_ok second_create_fails j) \<and> \<not> create_ok second_create_fails 1
    \<and> threads_alloc_ok second_create_fails \<and> data_alloc_ok second_create_fails
    \<and> (1::nat) < nat (num_threads (defaults\<lparr>num_threads := 2\<rparr>))"
    by (simp add: second_create_fails_def)
  with join_loop_passes_unwritten_handles [of "[Opt_t ''2'']" "defaults\<lparr>num_threads := 2\<rparr>" second_create_fails 1]
    parse_two_threads
  show ?thesis by simp
qed




text \<open>
  C3, as amended. On every exit path of a worker, if every \<open>munmap\<close> call succeeds then no
  region the worker mapped is still mapped when it returns; and if moreover the final
  loop read only slots that had been written, the successful \<open>munmap\<close> calls are as many
  as the successful \<open>mmap\<close> calls. (A region whose \<open>munmap\<close> fails stays mapped: the
  release phase empties its slot all the same, and the final loop ignores the result of
  \<open>munmap\<close>.)
\<close>

theorem all_unmapped_when_munmap_succeeds:
  assumes "\<forall>k. munmap_ok e k"
  shows "mapped (tlb_flush_worker e d) = {}
       \<and> (filter is_uninit_read (trace (tlb_flush_worker e d)) = [] \<longrightarrow>
            munmaps_ok (trace (tlb_flush_worker e d)) = maps_ok (trace (tlb_flush_worker e d)))"
proof (cases "malloc_ok e")
  case False
  then show ?thesis by (simp add: worker_alloc_failed init_wstate_def)
next
  case True
  then obtain s0 tc where a: "accounted e (iterations_per_cycle d) s0"
    and tr: "trace (tlb_flush_worker e d) = trace s0 @ tc @ [Merge (thread_tlb_flushes s0)]"
    and fl: "thread_tlb_flushes (tlb_flush_worker e d) = thread_tlb_flushes s0"
    and c: "maps_ok tc = 0" "releases_ok tc = 0" "released tc = []" "merges tc = []"
      "filter is_release_failed tc = []" "filter is_munmap_log tc = []"
    and f: "filled s0 \<longrightarrow> cleaned tc = live s0 \<and> filter is_uninit_read tc = []"
    and nf: "\<not> filled s0 \<longrightarrow> filter is_uninit_read tc \<noteq> []"
    and ok: "(\<forall>k. munmap_ok e k) \<longrightarrow> munmaps_ok tc = length (cleaned tc) \<and> mapped (tlb_flush_worker e d) = {}"
    using worker_summary [of e d] by blast
  from a assms have m: "munmaps_ok (trace s0) = length (released (trace s0))"
    and l: "length (released (trace s0)) + length (live s0) = maps_ok (trace s0)"
    by (simp_all add: accounted_def)
  have "munmaps_ok (trace (tlb_flush_worker e d)) = maps_ok (trace (tlb_flush_worker e d))"
    if "filter is_uninit_read (trace (tlb_flush_worker e d)) = []"
  proof -
    from that tr have "filter is_uninit_read tc = []" by simp
    with nf have "filled s0" by blast
    with f ok assms m l c tr show ?thesis by simp
  qed
  with ok assms show ?thesis by blast
qed

theorem all_unmapped_when_munmap_succeeds_witness:
  "mapped (tlb_flush_worker one_cycle one_slot) = {}
   \<and> munmaps_ok (trace (tlb_flush_worker one_cycle one_slot)) = 1
   \<and> maps_ok (trace (tlb_flush_worker one_cycle one_slot)) = 1"
proof -
  have "\<forall>k. munmap_ok one_cycle k" by (simp add: one_cycle_def)
  from all_unmapped_when_munmap_succeeds [OF this, of one_slot] show ?thesis
    by (simp add: one_cycle_run)
qed

text \<open>
  C3 as stated fails: the flag is cleared after the map phase, the final loop calls
  \<open>munmap\<close> on the region in slot 0, the call fails, and the worker returns with the
  region still mapped: one region mapped, none released.
\<close>

theorem failed_munmap_leaves_region_mapped:
  "mapped (tlb_flush_worker cleanup_fails one_slot) = {0}
   \<and> maps_ok (trace (tlb_flush_worker cleanup_fails one_slot)) = 1
   \<and> munmaps_ok (trace (tlb_flush_worker cleanup_fails one_slot)) = 0"
  by (simp add: cleanup_fails_run)



text \<open>
  C5, as amended. A worker whose table was allocated adds its counter to the global
  counter exactly once, as the last thing it does, after the cycle loop and the final
  loop. A worker whose allocation failed returns without touching the global counter;
  its own counter is 0 then. Either way the global counter, once all workers are joined,
  is the sum of the workers' counters.
\<close>

theorem counter_merged_once:
  "(malloc_ok e \<longrightarrow>
      (\<exists>tr. trace (tlb_flush_worker e d) = tr @ [Merge (thread_tlb_flushes (tlb_flush_worker e d))]
           \<and> merges tr = []))
   \<and> (\<not> malloc_ok e \<longrightarrow>
        merges (trace (tlb_flush_worker e d)) = [] \<and> thread_tlb_flushes (tlb_flush_worker e d) = 0)
   \<and> (parse_args args defaults = Run c \<and> threads_alloc_ok m \<and> data_alloc_ok m \<longrightarrow>
        total_tlb_flushes (main args m) = sum_list (map thread_tlb_flushes (workers (main args m))))"
proof (intro conjI impI)
  assume "malloc_ok e"
  then obtain s0 tc where a: "accounted e (iterations_per_cycle d) s0"
    and tr: "trace (tlb_flush_worker e d) = trace s0 @ tc @ [Merge (thread_tlb_flushes s0)]"
    and fl: "thread_tlb_flushes (tlb_flush_worker e d) = thread_tlb_flushes s0"
    and c: "maps_ok tc = 0" "releases_ok tc = 0" "released tc = []" "merges tc = []"
      "filter is_release_failed tc = []" "filter is_munmap_log tc = []"
    and f: "filled s0 \<longrightarrow> cleaned tc = live s0 \<and> filter is_uninit_read tc = []"
    and nf: "\<not> filled s0 \<longrightarrow> filter is_uninit_read tc \<noteq> []"
    and ok: "(\<forall>k. munmap_ok e k) \<longrightarrow> munmaps_ok tc = length (cleaned tc) \<and> mapped (tlb_flush_worker e d) = {}"
    using worker_summary [of e d] by blast
  from a have "merges (trace s0) = []" by (simp add: accounted_def)
  with tr fl c have "trace (tlb_flush_worker e d) = (trace s0 @ tc) @ [Merge (thread_tlb_flushes (tlb_flush_worker e d))]
      \<and> merges (trace s0 @ tc) = []"
    by simp
  then show "\<exists>tr. trace (tlb_flush_worker e d) = tr @ [Merge (thread_tlb_flushes (tlb_flush_worker e d))]
      \<and> merges tr = []"
    by blast
next
  assume "\<not> malloc_ok e"
  then show "merges (trace (tlb_flush_worker e d)) = []" and "thread_tlb_flushes (tlb_flush_worker e d) = 0"
    by (simp_all add: worker_alloc_failed init_wstate_def)
next
  assume "parse_args args defaults = Run c \<and> threads_alloc_ok m \<and> data_alloc_ok m"
  then have "main args m = run_threads m c" by (simp add: main_Run)
  then show "total_tlb_flushes (main args m) = sum_list (map thread_tlb_flushes (workers (main args m)))"
    by (simp add: run_threads_def case_prod_beta sum_merges_worker comp_def)
qed

theorem counter_merged_once_witness:
  "(\<exists>tr. trace (tlb_flush_worker one_cycle one_slot) = tr @ [Merge 1] \<and> merges tr = [])
   \<and> merges (trace (tlb_flush_worker table_alloc_fails one_slot)) = []
   \<and> thread_tlb_flushes (tlb_flush_worker table_alloc_fails one_slot) = 0
   \<and> total_tlb_flushes (main [Opt_t ''1''] worker_alloc_fails) = 0"
proof -
  have "malloc_ok one_cycle" and "\<not> malloc_ok table_alloc_fails"
    and "threads_alloc_ok worker_alloc_fails" and "data_alloc_ok worker_alloc_fails"
    by (simp_all add: one_cycle_def table_alloc_fails_def worker_alloc_fails_def)
  with counter_merged_once [of one_cycle one_slot "[Opt_t ''1'']" "defaults\<lparr>num_threads := 1\<rparr>" worker_alloc_fails]
    counter_merged_once [of table_alloc_fails one_slot "[Opt_t ''1'']" "defaults\<lparr>num_threads := 1\<rparr>" worker_alloc_fails]
    parse_one_thread
  show ?thesis
    by (simp add: one_cycle_run(2) worker_alloc_fails_run emit_def init_wstate_def)
qed

text \<open>
  C5 as stated fails on the allocation-failure path: the worker returns before the
  merge, and writes the global counter zero times.
\<close>

theorem no_merge_when_table_alloc_fails:
  "\<not> malloc_ok table_alloc_fails
   \<and> trace (tlb_flush_worker table_alloc_fails one_slot) = [Stderr AllocFailed]
   \<and> length (merges (trace (tlb_flush_worker table_alloc_fails one_slot))) \<noteq> 1"
  by (simp add: table_alloc_fails_def one_cycle_def tlb_flush_worker_def emit_def init_wstate_def)

text \<open>
  C6, as amended. Take a command line whose options up to some point all pass. If the
  next option's value, as \<open>atoi\<close> reads it, is an \<open>int\<close> out of bounds, \<open>main\<close> prints the
  message for it on the error stream and returns 1 with no worker started. If the next
  option is \<open>-h\<close>, \<open>main\<close> prints the usage text and returns 0. And no value is clamped:
  when all options pass, the settings are the values as \<open>atoi\<close> read them. (A malformed
  value is judged by what \<open>atoi\<close> makes of it, so \<open>4abc\<close> is 4.)
\<close>
theorem option_checks:
  "(list_all accepted pre \<and> out_of_bounds a \<longrightarrow>
      main (pre @ a # post) m = returned 1 (complaint a) False \<and> complaint a \<noteq> [])
   \<and> (list_all accepted pre \<longrightarrow> main (pre @ Opt_h # post) m = returned 0 [] True)
   \<and> (list_all accepted pre \<longrightarrow> parse_args pre defaults = Run (fold stored pre defaults))"
proof (intro conjI impI)
  assume a: "list_all accepted pre \<and> out_of_bounds a"
  then show "main (pre @ a # post) m = returned 1 (complaint a) False"
    by (simp add: main_def returned_def parse_args_accepted parse_args_out_of_bounds)
  from a show "complaint a \<noteq> []" by (cases a) auto
next
  assume "list_all accepted pre"
  then show "main (pre @ Opt_h # post) m = returned 0 [] True"
    by (simp add: main_def returned_def parse_args_accepted)
next
  assume "list_all accepted pre"
  then show "parse_args pre defaults = Run (fold stored pre defaults)"
    using parse_args_accepted [of pre "[]" defaults] by simp
qed

theorem option_checks_witness:
  "main ([Opt_t ''2''] @ Opt_t ''65'' # [Opt_h]) worker_alloc_fails = returned 1 [InvalidThreads 65] False
   \<and> main ([Opt_t ''2''] @ Opt_h # [Opt_t ''0'']) worker_alloc_fails = returned 0 [] True
   \<and> parse_args [Opt_t ''2''] defaults = Run (defaults\<lparr>num_threads := 2\<rparr>)"
proof -
  have "list_all accepted [Opt_t ''2'']" and "out_of_bounds (Opt_t ''65'')"
    by (simp_all add: atoi_2 atoi_65 is_int_def)
  with option_checks [of "[Opt_t ''2'']" "Opt_t ''65''" "[Opt_h]" worker_alloc_fails]
    option_checks [of "[Opt_t ''2'']" "Opt_t ''65''" "[Opt_t ''0'']" worker_alloc_fails]
  show ?thesis by (simp add: atoi_2 atoi_65)
qed

text \<open>C6 as stated fails: the malformed value \<open>4abc\<close> starts four workers without a message.\<close>

theorem malformed_value_accepted:
  "exit_status (main [Opt_t ''4abc''] all_created) = 0
     \<and> stderr (main [Opt_t ''4abc''] all_created) = []
     \<and> length (workers (main [Opt_t ''4abc''] all_created)) = 4"
proof -
  have "parse_args [Opt_t ''4abc''] defaults = Run (defaults\<lparr>num_threads := 4\<rparr>)"
    by (simp add: atoi_4abc)
  then have "main [Opt_t ''4abc''] all_created = run_threads all_created (defaults\<lparr>num_threads := 4\<rparr>)"
    by (rule main_Run) (simp_all add: all_created_def)
  moreover have "fst (launch all_created 4 0 ths) = 4 \<and> \<not> fst (snd (launch all_created 4 0 ths))" for ths
    by (rule launch_all_created) (simp_all add: all_created_def)
  ultimately show ?thesis
    by (simp add: workers_run_threads stderr_run_threads)
qed

text \<open>
  C7, as amended. The claim: in the access phase the worker visits, for each successfully
  mapped region, the pages \<open>(j * 17 + i * 13) mod pagesPerThread\<close> for \<open>j = 0, 4, 8, ...\<close>,
  reading each and writing back the value read plus one. Every pass of the access loop
  does so: for a slot that holds a region, the events that follow the beginning of the
  pass are exactly these reads and writes, in this order, and for a slot that holds
  \<open>MAP_FAILED\<close> no page is touched. But not every mapped region gets its pass: the loop
  reads \<open>keep_running\<close> before each pass and ends when it reads 0. What holds is that
  after a successful \<open>mmap\<close> for slot \<open>i\<close>, before the sleep that ends the cycle, either
  the flag is read as 0 or the access pass for slot \<open>i\<close> begins and visits the pages of
  that very region.
\<close>

theorem access_phase_pattern:
  "(\<forall>a i r b. trace (tlb_flush_worker e d) = a @ MmapCall i (Addr r) # b \<longrightarrow>
       (\<exists>c1 c2. sleeps c1 = 0
          \<and> (b = c1 @ FlagRead False # c2
             \<or> (\<exists>vs. length vs = length (visited (pages_per_thread d))
                   \<and> b = c1 @ Iter AccessPhase i # touches (pages_per_thread d) r i vs @ c2
                   \<and> \<not> page_next c2))))
   \<and> (\<forall>a i b. trace (tlb_flush_worker e d) = a @ Iter AccessPhase i # b \<longrightarrow>
       (held a i = Some MAP_FAILED \<and> \<not> page_next b)
     \<or> (\<exists>r vs c. held a i = Some (Addr r) \<and> length vs = length (visited (pages_per_thread d))
           \<and> b = touches (pages_per_thread d) r i vs @ c \<and> \<not> page_next c))"
proof -
  note r = worker_regular [of d e]
  have "\<exists>c1 c2. sleeps c1 = 0
          \<and> (b = c1 @ FlagRead False # c2
             \<or> (\<exists>vs. length vs = length (visited (pages_per_thread d))
                   \<and> b = c1 @ Iter AccessPhase i # touches (pages_per_thread d) r i vs @ c2
                   \<and> \<not> page_next c2))"
    if "trace (tlb_flush_worker e d) = a @ MmapCall i (Addr r) # b" for a i r b
    using r that mapped_region_visited [of "iterations_per_cycle d" "pages_per_thread d" a i r b] by simp
  moreover have "(held a i = Some MAP_FAILED \<and> \<not> page_next b)
     \<or> (\<exists>r vs c. held a i = Some (Addr r) \<and> length vs = length (visited (pages_per_thread d))
           \<and> b = touches (pages_per_thread d) r i vs @ c \<and> \<not> page_next c)"
    if "trace (tlb_flush_worker e d) = a @ Iter AccessPhase i # b" for a i b
    using r that access_pass_pattern [of "iterations_per_cycle d" "pages_per_thread d" a i b] by simp
  ultimately show ?thesis by blast
qed

theorem access_phase_pattern_witness:
  "trace (tlb_flush_worker two_regions six_pages) =
     [TimeRead 0, FlagRead True, TimeRead 0,
      FlagRead True, Iter MapPhase 0, MmapCall 0 MAP_FAILED, Stderr (MmapFailed 0),
      FlagRead True, Iter MapPhase 1, MmapCall 1 (Addr 1),
      FlagRead True, Iter AccessPhase 0, FlagRead True, Iter AccessPhase 1,
      PageRead 1 1 2, PageWrite 1 1 3, PageRead 1 3 4, PageWrite 1 3 5,
      FlagRead True, Iter ReleasePhase 0,
      FlagRead True, Iter ReleasePhase 1, MunmapCall ReleasePhase 1 1 True,
      Usleep 1000, FlagRead True, TimeRead 1,
      Iter CleanupLoop 0, Iter CleanupLoop 1, Merge 1]
   \<and> (\<exists>c1 c2 vs. sleeps c1 = 0 \<and> length vs = length (visited 6)
       \<and> [FlagRead True, Iter AccessPhase 0, FlagRead True, Iter AccessPhase 1,
           PageRead 1 1 2, PageWrite 1 1 3, PageRead 1 3 4, PageWrite 1 3 5,
           FlagRead True, Iter ReleasePhase 0,
           FlagRead True, Iter ReleasePhase 1, MunmapCall ReleasePhase 1 1 True,
           Usleep 1000, FlagRead True, TimeRead 1,
           Iter CleanupLoop 0, Iter CleanupLoop 1, Merge 1]
          = c1 @ Iter AccessPhase 1 # touches 6 1 1 vs @ c2
       \<and> \<not> page_next c2)
   \<and> held [TimeRead 0, FlagRead True, TimeRead 0,
        FlagRead True, Iter MapPhase 0, MmapCall 0 MAP_FAILED, Stderr (MmapFailed 0),
        FlagRead True, Iter MapPhase 1, MmapCall 1 (Addr 1), FlagRead True] 0 = Some MAP_FAILED
   \<and> \<not> page_next [FlagRead True, Iter AccessPhase 1,
           PageRead 1 1 2, PageWrite 1 1 3, PageRead 1 3 4, PageWrite 1 3 5,
           FlagRead True, Iter ReleasePhase 0,
           FlagRead True, Iter ReleasePhase 1, MunmapCall ReleasePhase 1 1 True,
           Usleep 1000, FlagRead True, TimeRead 1,
           Iter CleanupLoop 0, Iter CleanupLoop 1, Merge 1]
   \<and> touches 6 1 1 [2, 4] = [PageRead 1 1 2, PageWrite 1 1 3, PageRead 1 3 4, PageWrite 1 3 5]"
proof -
  let ?m = "[TimeRead 0, FlagRead True, TimeRead 0,
      FlagRead True, Iter MapPhase 0, MmapCall 0 MAP_FAILED, Stderr (MmapFailed 0),
      FlagRead True, Iter MapPhase 1]"
  let ?b = "[PageRead 1 1 2, PageWrite 1 1 3, PageRead 1 3 4, PageWrite 1 3 5,
      FlagRead True, Iter ReleasePhase 0,
      FlagRead True, Iter ReleasePhase 1, MunmapCall ReleasePhase 1 1 True,
      Usleep 1000, FlagRead True, TimeRead 1,
      Iter CleanupLoop 0, Iter CleanupLoop 1, Merge 1]"
  let ?f = "[FlagRead True, Iter AccessPhase 0, FlagRead True, Iter AccessPhase 1] @ ?b"
  let ?a0 = "?m @ [MmapCall 1 (Addr 1), FlagRead True]"
  note c = access_phase_pattern [of two_regions six_pages]
  have "trace (tlb_flush_worker two_regions six_pages) = ?m @ MmapCall 1 (Addr 1) # ?f"
    by (simp add: two_regions_run)
  with c obtain c1 c2 where s: "sleeps c1 = 0"
    and alt: "?f = c1 @ FlagRead False # c2
      \<or> (\<exists>vs. length vs = length (visited (pages_per_thread six_pages))
            \<and> ?f = c1 @ Iter AccessPhase 1 # touches (pages_per_thread six_pages) 1 1 vs @ c2
            \<and> \<not> page_next c2)"
    by blast
  have "?f \<noteq> c1 @ FlagRead False # c2"
  proof
    assume "?f = c1 @ FlagRead False # c2"
    then have "FlagRead False \<in> set ?f" by (metis in_set_conv_decomp)
    then show False by simp
  qed
  with alt s have first: "\<exists>c1 c2 vs. sleeps c1 = 0 \<and> length vs = length (visited 6)
       \<and> ?f = c1 @ Iter AccessPhase 1 # touches 6 1 1 vs @ c2 \<and> \<not> page_next c2"
    by (auto simp: six_pages_def)
  have h: "held ?a0 0 = Some MAP_FAILED"
    by (simp add: held_def)
  have "trace (tlb_flush_worker two_regions six_pages) = ?a0 @ Iter AccessPhase 0 # FlagRead True # Iter AccessPhase 1 # ?b"
    by (simp add: two_regions_run)
  with c have "(held ?a0 0 = Some MAP_FAILED \<and> \<not> page_next (FlagRead True # Iter AccessPhase 1 # ?b))
     \<or> (\<exists>r vs c. held ?a0 0 = Some (Addr r) \<and> length vs = length (visited (pages_per_thread six_pages))
           \<and> FlagRead True # Iter AccessPhase 1 # ?b = touches (pages_per_thread six_pages) r 0 vs @ c
           \<and> \<not> page_next c)"
    by blast
  with h have second: "\<not> page_next (FlagRead True # Iter AccessPhase 1 # ?b)"
    by simp
  have "touches 6 1 1 [2, 4] = [PageRead 1 1 2, PageWrite 1 1 3, PageRead 1 3 4, PageWrite 1 3 5]"
    by (simp add: touches_def visited_def page_offset_def upt_rec)
  with first second h show ?thesis by (simp add: two_regions_run)
qed

text \<open>
  C7 as stated fails: both regions are mapped, the access loop visits the first, reads the
  flag as 0, and never touches the second.
\<close>

theorem mapped_region_left_unvisited:
  "trace (tlb_flush_worker cut_in_access two_slots) =
     [TimeRead 0, FlagRead True, TimeRead 0,
      FlagRead True, Iter MapPhase 0, MmapCall 0 (Addr 0),
      FlagRead True, Iter MapPhase 1, MmapCall 1 (Addr 1),
      FlagRead True, Iter AccessPhase 0, PageRead 0 0 0, PageWrite 0 0 1,
      FlagRead False, FlagRead False, Usleep 1000, FlagRead False,
      Iter CleanupLoop 0, MunmapCall CleanupLoop 0 0 True,
      Iter CleanupLoop 1, MunmapCall CleanupLoop 1 1 True, Merge 0]
   \<and> concat (map (visits_of 0) (trace (tlb_flush_worker cut_in_access two_slots)))
       = [PageRead 0 0 0, PageWrite 0 0 1]
   \<and> concat (map (visits_of 1) (trace (tlb_flush_worker cut_in_access two_slots))) = []"
  by (simp add: cut_in_access_run)

text \<open>
  C8. The cycle loop of every worker ends: the model's loop is a total function, because
  each pass sleeps for 1000 microseconds of a clock that never goes back, and a run makes
  at most 1000 passes per second of the configured duration. The loop polls as the
  claim says: a pass of the map, access or release loop only begins directly after a
  read of \<open>keep_running\<close> that returned 1, never after a read that returned 0, and only
  while the latest value of the clock is less than the duration after the start time; and
  the clock is read in the loop only directly after the read of \<open>keep_running\<close> at the top
  of the cycle returned 1.
\<close>

theorem cycle_loop_ends_and_polls:
  "sleeps (trace (tlb_flush_worker e d)) \<le> 1000 * nat (duration_seconds d)
   \<and> obeys (duration_seconds d) (trace (tlb_flush_worker e d))
   \<and> (\<forall>a ph i b. trace (tlb_flush_worker e d) = a @ Iter ph i # b \<and> ph \<noteq> CleanupLoop \<longrightarrow>
         a \<noteq> [] \<and> last a = FlagRead True \<and> FlagRead False \<notin> set a
         \<and> (\<exists>t0 ts. times a = t0 # ts \<and> ts \<noteq> [] \<and> last ts - t0 < duration_seconds d))
   \<and> (\<forall>a t b. trace (tlb_flush_worker e d) = a @ TimeRead t # b \<and> times a \<noteq> [] \<longrightarrow>
         a \<noteq> [] \<and> last a = FlagRead True)"
proof -
  note w = worker_watched [of e d]
  from w have o: "obeys (duration_seconds d) (trace (tlb_flush_worker e d))" by simp
  have "a \<noteq> [] \<and> last a = FlagRead True \<and> FlagRead False \<notin> set a
         \<and> (\<exists>t0 ts. times a = t0 # ts \<and> ts \<noteq> [] \<and> last ts - t0 < duration_seconds d)"
    if "trace (tlb_flush_worker e d) = a @ Iter ph i # b" and "ph \<noteq> CleanupLoop" for a ph i b
    using obeys_Iter [of "duration_seconds d" a ph i b] o that by simp
  moreover have "a \<noteq> [] \<and> last a = FlagRead True"
    if "trace (tlb_flush_worker e d) = a @ TimeRead t # b" and "times a \<noteq> []" for a t b
    using obeys_TimeRead [of "duration_seconds d" a t b] o that by simp
  ultimately show ?thesis using w by blast
qed

theorem cycle_loop_ends_and_polls_witness:
  "sleeps (trace (tlb_flush_worker one_cycle one_slot)) = 1
   \<and> 1000 * nat (duration_seconds one_slot) = 1000
   \<and> obeys 1 (trace (tlb_flush_worker one_cycle one_slot))
   \<and> times [TimeRead 0, FlagRead True, TimeRead 0, FlagRead True] = [0, 0]"
proof -
  let ?a = "[TimeRead 0, FlagRead True, TimeRead 0, FlagRead True]"
  let ?b = "[MmapCall 0 (Addr 0),
      FlagRead True, Iter AccessPhase 0, PageRead 0 0 0, PageWrite 0 0 1,
      FlagRead True, Iter ReleasePhase 0, MunmapCall ReleasePhase 0 0 True,
      Usleep 1000, FlagRead True, TimeRead 1, Iter CleanupLoop 0, Merge 1]"
  note c = cycle_loop_ends_and_polls [of one_cycle one_slot]
  have "trace (tlb_flush_worker one_cycle one_slot) = ?a @ Iter MapPhase 0 # ?b \<and> MapPhase \<noteq> CleanupLoop"
    by (simp add: one_cycle_run)
  with c have "\<exists>t0 ts. times ?a = t0 # ts \<and> ts \<noteq> [] \<and> last ts - t0 < duration_seconds one_slot"
    by blast
  moreover have "times ?a = [0, 0]" by (simp add: times_def)
  moreover from c have "sleeps (trace (tlb_flush_worker one_cycle one_slot)) \<le> 1000 * nat (duration_seconds one_slot)"
    and "obeys (duration_seconds one_slot) (trace (tlb_flush_worker one_cycle one_slot))"
    by blast+
  ultimately show ?thesis
    by (simp add: one_cycle_run) (simp add: one_slot_def)
qed

text \<open>
  C9. The claim: no slot of the table is read before it was written, also when the flag
  stops the first map phase early. The code does not keep it: the table is not
  initialised after \<open>malloc\<close>, and the final loop reads all its slots. In the run below
  the map phase fills slot 0 only, and the final loop reads slot 1, never written, and
  calls \<open>munmap\<close> on what it finds there.
\<close>

theorem cleanup_reads_unwritten_slot:
  "trace (tlb_flush_worker stopped_in_first_map two_slots) =
     [TimeRead 0, FlagRead True, TimeRead 0,
      FlagRead True, Iter MapPhase 0, MmapCall 0 (Addr 0), FlagRead False,
      FlagRead False, FlagRead False, Usleep 1000, FlagRead False,
      Iter CleanupLoop 0, MunmapCall CleanupLoop 0 0 True,
      Iter CleanupLoop 1, UninitRead CleanupLoop 1, MunmapCall CleanupLoop 1 0 True,
      Merge 0]"
  by (simp add: stopped_in_first_map_def two_slots_def worker_eval)

text \<open>
  C10. The claim: after each pass of the release loop the slot holds \<open>MAP_FAILED\<close>
  whatever \<open>munmap\<close> returned, and so the final loop never calls \<open>munmap\<close> twice on the
  same region and never retries a failed release. For the slots the release loop has
  been over this holds (\<open>released_slots_are_emptied\<close>). But the final loop also reads
  the slots that were never written, and what they hold may be the address of a region
  of the table: in the run of C9 the unwritten slot 1 holds the address of the region
  in slot 0, the release phase never ran, and the final loop calls \<open>munmap\<close> on that
  region twice.
\<close>

theorem cleanup_unmaps_region_twice:
  "junk stopped_in_first_map 1 = Addr 0
   \<and> released (trace (tlb_flush_worker stopped_in_first_map two_slots)) = []
   \<and> cleaned (trace (tlb_flush_worker stopped_in_first_map two_slots)) = [0, 0]"
  by (simp add: stopped_in_first_map_def two_slots_def worker_eval)

end
